theory Spec2Isabelle
  imports Main "HOL-Library.Log_Nat" "HOL-Library.Signed_Division"
begin

section \<open>The foveated-panorama transcoder of \<^verbatim>\<open>optimizer.cpp\<close>\<close>

text \<open>
  The development embeds \<^verbatim>\<open>src/optimizer/optimizer.cpp\<close>: the two overloads of
  \<^verbatim>\<open>constrainAngle\<close>, \<^verbatim>\<open>OptimizedImage::size\<close>, the encoder
  \<^verbatim>\<open>Optimizer::optimizeImage\<close> and the decoder \<^verbatim>\<open>Optimizer::extractImage\<close>.

  \<^item> C++ \<^verbatim>\<open>int\<close> values are HOL integers; \<^verbatim>\<open>/\<close> and \<^verbatim>\<open>%\<close> on them truncate
    towards zero (\<open>sdiv\<close>, \<open>smod\<close>). The operations of the source file that can
    leave the range of a 32-bit \<^verbatim>\<open>int\<close> are checked: the conversions from
    \<^verbatim>\<open>double\<close>, the two sums of the encoder that depend on the elevation, and the
    sums and differences of the decoder, which depend on the fields of the record.
  \<^item> A \<^verbatim>\<open>double\<close> is the rational number it denotes; every arithmetic operation
    rounds its exact result to 53 significant bits, ties to even.
  \<^item> A \<^verbatim>\<open>cv::Mat\<close> is a header (size, element type, buffer, origin of the view in
    the buffer); pixels live in a store of buffers, so that headers can share data
    as they do in OpenCV.
  \<^item> A failed contract macro, an OpenCV exception and an out-of-range conversion are
    values of type \<open>error\<close>; every operation returns its outcome together with the
    store it leaves behind.
\<close>

subsection \<open>Errors\<close>

datatype error =
  ContractViolation   \<comment> \<open>a failed \<^verbatim>\<open>REQUIRES\<close>, \<^verbatim>\<open>ASSERT\<close> or \<^verbatim>\<open>ENSURES\<close>\<close>
| CvException         \<comment> \<open>a failed \<^verbatim>\<open>CV_Assert\<close> inside OpenCV\<close>
| Overflow            \<comment> \<open>an \<^verbatim>\<open>int\<close> result outside the range of \<^verbatim>\<open>int\<close> (undefined in C++)\<close>

subsection \<open>Double-precision arithmetic\<close>

text \<open>Rounding to the nearest integer, ties to the even one.\<close>

definition round_even :: "rat \<Rightarrow> int" where
  "round_even x =
     (let f = \<lfloor>x\<rfloor>; r = x - of_int f
      in if r < 1 / 2 then f
         else if 1 / 2 < r then f + 1
         else if even f then f else f + 1)"

text \<open>The binary exponent of a positive rational: \<open>2 powi ilog2 x \<le> x < 2 powi (ilog2 x + 1)\<close>.\<close>

definition ilog2 :: "rat \<Rightarrow> int" where
  "ilog2 x =
     (let d = bitlen (fst (quotient_of x)) - bitlen (snd (quotient_of x))
      in if 2 powi d \<le> x then d else d - 1)"

text \<open>
  Rounding to binary64 (round to nearest, ties to even) in the normal range. Every
  \<^verbatim>\<open>double\<close> the program computes from \<^verbatim>\<open>int\<close> inputs is zero or has a magnitude
  between \<open>2 powi -9\<close> and \<open>2 powi 55\<close>, far from the subnormal and the overflow range.
\<close>

definition rd :: "rat \<Rightarrow> rat" where
  "rd x =
     (if x = 0 then 0
      else let u = 2 powi (ilog2 \<bar>x\<bar> - 52) in of_int (round_even (x / u)) * u)"

definition dmul :: "rat \<Rightarrow> rat \<Rightarrow> rat" where
  "dmul x y = rd (x * y)"

definition ddiv :: "rat \<Rightarrow> rat \<Rightarrow> rat" where
  "ddiv x y = rd (x / y)"

definition dadd :: "rat \<Rightarrow> rat \<Rightarrow> rat" where
  "dadd x y = rd (x + y)"

text \<open>Truncation towards zero.\<close>

definition trunc :: "rat \<Rightarrow> int" where
  "trunc x = (if 0 \<le> x then \<lfloor>x\<rfloor> else \<lceil>x\<rceil>)"

text \<open>\<^verbatim>\<open>fmod\<close> is exact: the result has the sign of \<open>x\<close> and a magnitude below \<open>\<bar>y\<bar>\<close>.\<close>

definition fmod :: "rat \<Rightarrow> rat \<Rightarrow> rat" where
  "fmod x y = x - of_int (trunc (x / y)) * y"

text \<open>
  An \<^verbatim>\<open>int\<close> result is defined only inside the 32-bit range. The conversion of a
  \<^verbatim>\<open>double\<close> to \<^verbatim>\<open>int\<close> truncates.
\<close>

definition checked :: "int \<Rightarrow> error + int" where
  "checked n = (if - (2 ^ 31) \<le> n \<and> n < 2 ^ 31 then Inr n else Inl Overflow)"

definition d2i :: "rat \<Rightarrow> error + int" where
  "d2i x = checked (trunc x)"

subsection \<open>Constants\<close>

definition CROP_ANGLE :: int where "CROP_ANGLE = 120"
definition H_FOCUS_ANGLE :: int where "H_FOCUS_ANGLE = 20"
definition V_FOCUS_ANGLE :: int where "V_FOCUS_ANGLE = 20"
definition BLUR_FACTOR :: int where "BLUR_FACTOR = 5"

subsection \<open>Contracts\<close>

text \<open>
  Modelled from the spec: the macros \<^verbatim>\<open>REQUIRES\<close>, \<^verbatim>\<open>ASSERT\<close> and \<^verbatim>\<open>ENSURES\<close> are
  not defined in the source file. The spec has a violated precondition or invariant
  fail fast and never clamp: the call ends there with an error.
\<close>

definition contract :: "bool \<Rightarrow> error + unit" where
  "contract b = (if b then Inr () else Inl ContractViolation)"

text \<open>Sequencing of steps that can fail: the first error ends the call.\<close>

definition and_then :: "error + 'a \<Rightarrow> ('a \<Rightarrow> error + 'b) \<Rightarrow> error + 'b" where
  "and_then r f = (case r of Inl e \<Rightarrow> Inl e | Inr x \<Rightarrow> f x)"

subsection \<open>\<^verbatim>\<open>constrainAngle\<close>\<close>

definition constrainAngle :: "int \<Rightarrow> error + int" where
  "constrainAngle x0 =
     (let x = x0 smod 360;
          x = (if x < 0 then x + 360 else x)
      in and_then (contract (0 \<le> x \<and> x < 360)) (\<lambda>_. Inr x))"

definition constrainAngle_double :: "rat \<Rightarrow> error + rat" where
  "constrainAngle_double x0 =
     (let x = fmod x0 360;
          x = (if x < 0 then dadd x 360 else x)
      in and_then (contract (0 \<le> x \<and> x < 360)) (\<lambda>_. Inr x))"

subsection \<open>Matrices and the pixel store\<close>

record Size =
  width :: int
  height :: int

text \<open>
  A \<^verbatim>\<open>cv::Mat\<close> header: its size, its element type, the buffer that holds its pixels
  (\<open>0\<close> is the null pointer of an empty \<^verbatim>\<open>Mat()\<close>) and the position of its first
  pixel in that buffer. A view made from another header shares the buffer.
\<close>

record mat =
  rows :: int
  cols :: int
  mtype :: nat
  buf :: nat
  row0 :: int
  col0 :: int

text \<open>The store: the pixels of every buffer, and the last buffer allocated.\<close>

record 'p store =
  mem :: "nat \<Rightarrow> int \<Rightarrow> int \<Rightarrow> 'p"
  fresh :: nat

type_synonym ('p, 'a) cv = "'p store \<Rightarrow> (error + 'a) \<times> 'p store"

definition lift :: "error + 'a \<Rightarrow> ('p, 'a) cv" where
  "lift r s = (r, s)"

definition then_do :: "('p, 'a) cv \<Rightarrow> ('a \<Rightarrow> ('p, 'b) cv) \<Rightarrow> ('p, 'b) cv" where
  "then_do m f s =
     (case m s of
        (Inl e, s1) \<Rightarrow> (Inl e, s1)
      | (Inr x, s1) \<Rightarrow> f x s1)"

definition Mat_empty :: mat where
  "Mat_empty = \<lparr>rows = 0, cols = 0, mtype = 0, buf = 0, row0 = 0, col0 = 0\<rparr>"

definition mat_size :: "mat \<Rightarrow> Size" where
  "mat_size m = \<lparr>width = cols m, height = rows m\<rparr>"

definition size_empty :: "Size \<Rightarrow> bool" where
  "size_empty sz \<longleftrightarrow> width sz \<le> 0 \<or> height sz \<le> 0"

text \<open>The pixel at row \<open>r\<close> and column \<open>c\<close> of a matrix.\<close>

definition pixel :: "'p store \<Rightarrow> mat \<Rightarrow> int \<Rightarrow> int \<Rightarrow> 'p" where
  "pixel s m r c = mem s (buf m) (row0 m + r) (col0 m + c)"

datatype cv_range = Range_of int int | Range_all

text \<open>
  \<^verbatim>\<open>Mat::release\<close> as the range constructor uses it: the header gives up its data
  and has neither rows nor columns; it keeps its element type.
\<close>

definition release :: "mat \<Rightarrow> mat" where
  "release m = m\<lparr>rows := 0, cols := 0, buf := 0, row0 := 0, col0 := 0\<rparr>"

text \<open>
  \<^verbatim>\<open>Mat(m, rowRange, colRange)\<close>: a view of \<open>m\<close>. The constructor copies the header,
  narrows it to the row range and then to the column range, and checks each range
  that is not \<^verbatim>\<open>Range::all()\<close> against the matrix: it throws when the range does
  not fit. At the end a header that is left without rows or without columns is
  released: the view of an empty range is the empty matrix, of size 0 by 0. The
  two narrowing steps of the constructor come first; \<open>Mat_view\<close> is the constructor.
\<close>

definition rowRange_of :: "mat \<Rightarrow> cv_range \<Rightarrow> error + mat" where
  "rowRange_of m rowRange =
     (case rowRange of
        Range_all \<Rightarrow> Inr m
      | Range_of a b \<Rightarrow>
          if 0 \<le> a \<and> a \<le> b \<and> b \<le> rows m
          then Inr (m\<lparr>rows := b - a, row0 := row0 m + a\<rparr>)
          else Inl CvException)"

definition colRange_of :: "mat \<Rightarrow> cv_range \<Rightarrow> error + mat" where
  "colRange_of m colRange =
     (case colRange of
        Range_all \<Rightarrow> Inr m
      | Range_of a b \<Rightarrow>
          if 0 \<le> a \<and> a \<le> b \<and> b \<le> cols m
          then Inr (m\<lparr>cols := b - a, col0 := col0 m + a\<rparr>)
          else Inl CvException)"

definition Mat_view :: "mat \<Rightarrow> cv_range \<Rightarrow> cv_range \<Rightarrow> error + mat" where
  "Mat_view m rowRange colRange =
     and_then (rowRange_of m rowRange) (\<lambda>m1.
     and_then (colRange_of m1 colRange) (\<lambda>m2.
     Inr (if rows m2 \<le> 0 \<or> cols m2 \<le> 0 then release m2 else m2)))"

text \<open>
  \<^verbatim>\<open>Mat::create\<close>: a header that already has the requested size and type and owns
  data is kept as it is, and later writes go to its buffer; otherwise a new buffer
  is allocated. A matrix created without rows or without columns keeps the
  requested size, and its buffer holds no pixel.
\<close>

definition create :: "mat \<Rightarrow> int \<Rightarrow> int \<Rightarrow> nat \<Rightarrow> ('p, mat) cv" where
  "create m r c t s =
     (if rows m = r \<and> cols m = c \<and> mtype m = t \<and> buf m \<noteq> 0 then (Inr m, s)
      else if r < 0 \<or> c < 0 then (Inl CvException, s)
      else (Inr \<lparr>rows = r, cols = c, mtype = t, buf = Suc (fresh s), row0 = 0, col0 = 0\<rparr>,
            s\<lparr>fresh := Suc (fresh s)\<rparr>))"

text \<open>Writing the pixels \<open>f\<close> into the window of a header.\<close>

definition write_px :: "mat \<Rightarrow> (int \<Rightarrow> int \<Rightarrow> 'p) \<Rightarrow> 'p store \<Rightarrow> 'p store" where
  "write_px m f s =
     s\<lparr>mem := (mem s)(buf m := (\<lambda>r c.
          if row0 m \<le> r \<and> r < row0 m + rows m \<and> col0 m \<le> c \<and> c < col0 m + cols m
          then f (r - row0 m) (c - col0 m)
          else mem s (buf m) r c))\<rparr>"

text \<open>\<^verbatim>\<open>Mat(rows, cols, type)\<close> followed by \<^verbatim>\<open>setTo(value)\<close>.\<close>

definition Mat_new :: "int \<Rightarrow> int \<Rightarrow> nat \<Rightarrow> ('p, mat) cv" where
  "Mat_new r c t = create Mat_empty r c t"

definition setTo :: "mat \<Rightarrow> 'p \<Rightarrow> ('p, unit) cv" where
  "setTo m v s = (Inr (), write_px m (\<lambda>r c. v) s)"

text \<open>
  \<^verbatim>\<open>cv::hconcat\<close> and \<^verbatim>\<open>cv::vconcat\<close>: the parts must agree in the other dimension
  and in type; the destination is created and each part is copied to its place, one
  after the other.
\<close>

fun hconcat_copy :: "mat list \<Rightarrow> mat \<Rightarrow> int \<Rightarrow> 'p store \<Rightarrow> 'p store" where
  "hconcat_copy [] dst c s = s"
| "hconcat_copy (m # ms) dst c s =
     hconcat_copy ms dst (c + cols m)
       (write_px (dst\<lparr>rows := rows m, cols := cols m, col0 := col0 dst + c\<rparr>) (pixel s m) s)"

definition hconcat :: "mat list \<Rightarrow> mat \<Rightarrow> ('p, mat) cv" where
  "hconcat src dst s =
     (case src of
        [] \<Rightarrow> (Inr Mat_empty, s)
      | m0 # _ \<Rightarrow>
          if list_all (\<lambda>m. rows m = rows m0 \<and> mtype m = mtype m0) src
          then (case create dst (rows m0) (sum_list (map cols src)) (mtype m0) s of
                  (Inl e, s1) \<Rightarrow> (Inl e, s1)
                | (Inr d, s1) \<Rightarrow> (Inr d, hconcat_copy src d 0 s1))
          else (Inl CvException, s))"

fun vconcat_copy :: "mat list \<Rightarrow> mat \<Rightarrow> int \<Rightarrow> 'p store \<Rightarrow> 'p store" where
  "vconcat_copy [] dst r s = s"
| "vconcat_copy (m # ms) dst r s =
     vconcat_copy ms dst (r + rows m)
       (write_px (dst\<lparr>rows := rows m, cols := cols m, row0 := row0 dst + r\<rparr>) (pixel s m) s)"

definition vconcat :: "mat list \<Rightarrow> mat \<Rightarrow> ('p, mat) cv" where
  "vconcat src dst s =
     (case src of
        [] \<Rightarrow> (Inr Mat_empty, s)
      | m0 # _ \<Rightarrow>
          if list_all (\<lambda>m. cols m = cols m0 \<and> mtype m = mtype m0) src
          then (case create dst (sum_list (map rows src)) (cols m0) (mtype m0) s of
                  (Inl e, s1) \<Rightarrow> (Inl e, s1)
                | (Inr d, s1) \<Rightarrow> (Inr d, vconcat_copy src d 0 s1))
          else (Inl CvException, s))"

text \<open>
  \<^verbatim>\<open>cv::resize(src, dst, dsize)\<close> with the default scale factors: an empty source
  and an empty target size are rejected; the destination is created with the target
  size and the type of the source and filled with interpolated pixels. The
  interpolation is a parameter: \<open>interp p ssize dsize\<close> are the pixels of the result
  for a source with pixels \<open>p\<close> and size \<open>ssize\<close>.
\<close>

type_synonym 'p interpolation =
  "(int \<Rightarrow> int \<Rightarrow> 'p) \<Rightarrow> Size \<Rightarrow> Size \<Rightarrow> int \<Rightarrow> int \<Rightarrow> 'p"

definition resize :: "'p interpolation \<Rightarrow> mat \<Rightarrow> mat \<Rightarrow> Size \<Rightarrow> ('p, mat) cv" where
  "resize interp src dst dsize s =
     (if size_empty (mat_size src) then (Inl CvException, s)
      else if size_empty dsize then (Inl CvException, s)
      else (case create dst (height dsize) (width dsize) (mtype src) s of
              (Inl e, s1) \<Rightarrow> (Inl e, s1)
            | (Inr d, s1) \<Rightarrow>
                (Inr d, write_px d (interp (pixel s src) (mat_size src) dsize) s1)))"

subsection \<open>\<^verbatim>\<open>ImageUtil\<close>\<close>

text \<open>
  Modelled from the spec: \<^verbatim>\<open>ImageUtil::imageSize\<close> is not in the source file. The
  spec has \<^verbatim>\<open>OptimizedImage::size\<close> report the byte size of the panels: the number
  of pixels of a panel times the bytes of one pixel, \<open>esz\<close> giving the bytes per pixel
  of an element type.
\<close>

definition imageSize :: "(nat \<Rightarrow> nat) \<Rightarrow> mat \<Rightarrow> nat" where
  "imageSize esz m = nat (rows m * cols m) * esz (mtype m)"

text \<open>
  Modelled from the spec: \<^verbatim>\<open>ImageUtil::hconcat3\<close> and \<^verbatim>\<open>ImageUtil::vconcat3\<close> are
  not in the source file. The spec has them reassemble the horizontal stack
  \<open>left + middle + right\<close> and the vertical stack \<open>top + focused + bottom\<close>: the
  concatenations of OpenCV on three parts.
\<close>

definition hconcat3 :: "mat \<Rightarrow> mat \<Rightarrow> mat \<Rightarrow> mat \<Rightarrow> ('p, mat) cv" where
  "hconcat3 a b c dst = hconcat [a, b, c] dst"

definition vconcat3 :: "mat \<Rightarrow> mat \<Rightarrow> mat \<Rightarrow> mat \<Rightarrow> ('p, mat) cv" where
  "vconcat3 a b c dst = vconcat [a, b, c] dst"

subsection \<open>\<^verbatim>\<open>OptimizedImage\<close>\<close>

record OptimizedImage =
  focused :: mat
  blurredLeft :: mat
  blurredRight :: mat
  blurredTop :: mat
  blurredBottom :: mat
  origHSize :: Size
  origVSize :: Size
  fullSize :: Size
  leftBuffer :: int

definition OptimizedImage_size :: "(nat \<Rightarrow> nat) \<Rightarrow> OptimizedImage \<Rightarrow> nat" where
  "OptimizedImage_size esz opt =
     imageSize esz (focused opt) +
     imageSize esz (blurredLeft opt) +
     imageSize esz (blurredRight opt) +
     imageSize esz (blurredTop opt) +
     imageSize esz (blurredBottom opt)"

subsection \<open>\<^verbatim>\<open>Optimizer::optimizeImage\<close>\<close>

text \<open>
  The encoder, in the phases that its timers delimit. The timers and the log lines
  do not touch the pixel data and are left out. The source frame \<^verbatim>\<open>image\<close> is \<open>img\<close>.
\<close>

definition angleToWidth :: "mat \<Rightarrow> rat" where
  "angleToWidth img = ddiv (of_int (cols img)) 360"

definition angleToHeight :: "mat \<Rightarrow> rat" where
  "angleToHeight img = ddiv (of_int (rows img)) 180"

text \<open>Lines 65 to 81: the columns of the left and the right edge of the crop window.\<close>

definition cropColumns :: "mat \<Rightarrow> int \<Rightarrow> error + int \<times> int" where
  "cropColumns img angle0 =
     and_then (constrainAngle angle0) (\<lambda>angle.
     and_then (contract (H_FOCUS_ANGLE < CROP_ANGLE)) (\<lambda>_.
     and_then (constrainAngle (angle - CROP_ANGLE sdiv 2)) (\<lambda>leftAngle.
     and_then (constrainAngle (angle + CROP_ANGLE sdiv 2)) (\<lambda>rightAngle.
     and_then (d2i (dmul (of_int leftAngle) (angleToWidth img))) (\<lambda>leftCol.
     and_then (d2i (dmul (of_int rightAngle) (angleToWidth img))) (\<lambda>rightCol.
     and_then (contract (0 \<le> leftCol)) (\<lambda>_.
     and_then (contract (leftCol < cols img)) (\<lambda>_.
     and_then (contract (0 \<le> rightCol)) (\<lambda>_.
     and_then (contract (rightCol < cols img)) (\<lambda>_.
     Inr (leftCol, rightCol)))))))))))"

text \<open>Lines 84 to 95: the crop, contiguous or wrapped around the seam.\<close>

definition cropping :: "mat \<Rightarrow> int \<Rightarrow> int \<Rightarrow> ('p, mat) cv" where
  "cropping img leftCol rightCol =
     (if leftCol < rightCol
      then lift (Mat_view img Range_all (Range_of leftCol rightCol))
      else
        then_do (lift (Mat_view img Range_all (Range_of leftCol (cols img)))) (\<lambda>leftMat.
        then_do (lift (Mat_view img Range_all (Range_of 0 rightCol))) (\<lambda>rightMat.
        hconcat [leftMat, rightMat] Mat_empty)))"

text \<open>Lines 99 to 110: the horizontal split into \<open>(middle, left, right)\<close>.\<close>

definition splitH :: "mat \<Rightarrow> mat \<Rightarrow> error + mat \<times> mat \<times> mat" where
  "splitH img cropped =
     and_then (d2i (dmul (of_int H_FOCUS_ANGLE) (angleToWidth img))) (\<lambda>focusWidth.
     let focusLeftCol = cols cropped sdiv 2 - focusWidth sdiv 2;
         focusRightCol = cols cropped sdiv 2 + focusWidth sdiv 2
     in
     and_then (contract (0 \<le> focusLeftCol)) (\<lambda>_.
     and_then (contract (focusLeftCol \<le> focusRightCol)) (\<lambda>_.
     and_then (contract (focusRightCol < cols cropped)) (\<lambda>_.
     and_then (Mat_view cropped Range_all (Range_of focusLeftCol focusRightCol)) (\<lambda>middle.
     and_then (Mat_view cropped Range_all (Range_of 0 focusLeftCol)) (\<lambda>left.
     and_then (Mat_view cropped Range_all (Range_of focusRightCol (cols cropped))) (\<lambda>right.
     Inr (middle, left, right))))))))"

text \<open>Lines 114 to 122: the size of the left strip, and both strips shrunk.\<close>

definition blurH :: "'p interpolation \<Rightarrow> mat \<Rightarrow> mat \<Rightarrow> ('p, Size \<times> mat \<times> mat) cv" where
  "blurH interp left right =
     (let origHSize = mat_size left;
          blurredLeft = left;
          blurredRight = right;
          smallSize = \<lparr>width = cols left sdiv BLUR_FACTOR, height = rows left sdiv BLUR_FACTOR\<rparr>
      in
      then_do (resize interp left blurredLeft smallSize) (\<lambda>blurredLeft.
      then_do (resize interp right blurredRight smallSize) (\<lambda>blurredRight.
      lift (Inr (origHSize, blurredLeft, blurredRight)))))"

text \<open>Lines 126 to 129: the rows \<open>(focusTopRow, focusBottomRow)\<close> of the focus band.\<close>

definition focusRows :: "mat \<Rightarrow> int \<Rightarrow> error + int \<times> int" where
  "focusRows img vAngle =
     and_then (d2i (dmul (of_int V_FOCUS_ANGLE) (angleToHeight img))) (\<lambda>focusHeight.
     and_then (d2i (dmul (of_int vAngle) (angleToHeight img))) (\<lambda>focusMiddleRow.
     and_then (checked (focusMiddleRow - focusHeight sdiv 2)) (\<lambda>focusTopRow.
     and_then (checked (focusMiddleRow + focusHeight sdiv 2)) (\<lambda>focusBottomRow.
     Inr (focusTopRow, focusBottomRow)))))"

text \<open>Lines 132 to 134: the vertical split into \<open>(top, focused, bottom)\<close>.\<close>

definition splitV :: "mat \<Rightarrow> int \<Rightarrow> int \<Rightarrow> error + mat \<times> mat \<times> mat" where
  "splitV middle focusTopRow focusBottomRow =
     and_then (Mat_view middle (Range_of 0 focusTopRow) Range_all) (\<lambda>top.
     and_then (Mat_view middle (Range_of focusTopRow focusBottomRow) Range_all) (\<lambda>focused.
     and_then (Mat_view middle (Range_of focusBottomRow (rows middle)) Range_all) (\<lambda>bottom.
     Inr (top, focused, bottom))))"

text \<open>Lines 139 to 143: the size of the top strip, and both strips shrunk.\<close>

definition blurV :: "'p interpolation \<Rightarrow> mat \<Rightarrow> mat \<Rightarrow> ('p, Size \<times> mat \<times> mat) cv" where
  "blurV interp = (\<lambda>top bottom.
      let blurredTop = Mat_empty;
          blurredBottom = Mat_empty;
          origVSize = mat_size top;
          smallVSize = \<lparr>width = cols top sdiv BLUR_FACTOR, height = rows top sdiv BLUR_FACTOR\<rparr>
      in
      then_do (resize interp top blurredTop smallVSize) (\<lambda>blurredTop.
      then_do (resize interp bottom blurredBottom smallVSize) (\<lambda>blurredBottom.
      lift (Inr (origVSize, blurredTop, blurredBottom)))))"

definition optimizeImage ::
    "'p interpolation \<Rightarrow> mat \<Rightarrow> int \<Rightarrow> int \<Rightarrow> ('p, OptimizedImage) cv" where
  "optimizeImage interp img angle vAngle =
     then_do (lift (cropColumns img angle)) (\<lambda>(leftCol, rightCol).
     then_do (cropping img leftCol rightCol) (\<lambda>cropped.
     then_do (lift (splitH img cropped)) (\<lambda>(middle, left, right).
     then_do (blurH interp left right) (\<lambda>(origHSize, blurredLeft, blurredRight).
     then_do (lift (focusRows img vAngle)) (\<lambda>(focusTopRow, focusBottomRow).
     then_do (lift (splitV middle focusTopRow focusBottomRow)) (\<lambda>(top, focused, bottom).
     then_do (blurV interp top bottom) (\<lambda>(origVSize, blurredTop, blurredBottom).
     lift (Inr \<lparr>focused = focused,
                 blurredLeft = blurredLeft,
                 blurredRight = blurredRight,
                 blurredTop = blurredTop,
                 blurredBottom = blurredBottom,
                 origHSize = origHSize,
                 origVSize = origVSize,
                 fullSize = mat_size img,
                 leftBuffer = leftCol\<rparr>))))))))"

subsection \<open>\<^verbatim>\<open>Optimizer::extractImage\<close>\<close>

text \<open>Lines 160 to 178: the four strips at their recorded sizes, and the crop put together.\<close>

definition reconstruct :: "'p interpolation \<Rightarrow> OptimizedImage \<Rightarrow> ('p, mat) cv" where
  "reconstruct interp optImage =
     then_do (resize interp (blurredLeft optImage) Mat_empty (origHSize optImage)) (\<lambda>left.
     then_do (resize interp (blurredRight optImage) Mat_empty (origHSize optImage)) (\<lambda>right.
     then_do (resize interp (blurredTop optImage) Mat_empty (origVSize optImage)) (\<lambda>top.
     then_do (resize interp (blurredBottom optImage) Mat_empty (origVSize optImage)) (\<lambda>bottom.
     then_do (vconcat3 top (focused optImage) bottom Mat_empty) (\<lambda>middle.
     hconcat3 left middle right Mat_empty)))))"

text \<open>
  Lines 182 to 224: the three parts \<open>(fullLeft, fullCenter, fullRight)\<close> of the frame.
  The sum of line 190 and the differences of lines 198, 203 and 217 are \<^verbatim>\<open>int\<close>
  operations on fields of the record.
\<close>

definition placement :: "OptimizedImage \<Rightarrow> mat \<Rightarrow> ('p::zero, mat \<times> mat \<times> mat) cv" where
  "placement optImage croppedImage =
     (let numRows = height (mat_size croppedImage);
          origType = mtype (focused optImage)
      in
      then_do (lift (checked (width (mat_size croppedImage) + leftBuffer optImage))) (\<lambda>rightEdge.
      if width (fullSize optImage) \<le> rightEdge
      then
        then_do (lift (checked (width (fullSize optImage) - leftBuffer optImage))) (\<lambda>rightEndExclusive.
        then_do (lift (contract (0 \<le> rightEndExclusive \<and> rightEndExclusive \<le> cols croppedImage))) (\<lambda>_.
        then_do (lift (Mat_view croppedImage Range_all (Range_of 0 rightEndExclusive))) (\<lambda>fullRight.
        then_do (lift (Mat_view croppedImage Range_all
                         (Range_of rightEndExclusive (cols croppedImage)))) (\<lambda>fullLeft.
        then_do (lift (checked (width (fullSize optImage) - width (mat_size fullRight)))) (\<lambda>rest.
        then_do (lift (checked (rest - width (mat_size fullLeft)))) (\<lambda>centerCols.
        then_do (lift (contract (0 \<le> centerCols))) (\<lambda>_.
        then_do (Mat_new numRows centerCols origType) (\<lambda>fullCenter.
        then_do (setTo fullCenter 0) (\<lambda>_.
        lift (Inr (fullLeft, fullCenter, fullRight)))))))))))
      else
        let leftBufferCols = leftBuffer optImage in
        then_do (Mat_new numRows leftBufferCols origType) (\<lambda>fullLeft.
        let fullCenter = croppedImage in
        then_do (lift (checked (width (fullSize optImage) - leftBufferCols))) (\<lambda>rest.
        then_do (lift (checked (rest - width (mat_size croppedImage)))) (\<lambda>rightBufferCols.
        then_do (lift (contract (0 \<le> rightBufferCols))) (\<lambda>_.
        then_do (Mat_new numRows rightBufferCols origType) (\<lambda>fullRight.
        then_do (setTo fullLeft 0) (\<lambda>_.
        then_do (setTo fullRight 0) (\<lambda>_.
        lift (Inr (fullLeft, fullCenter, fullRight)))))))))))"

definition extractImage :: "'p interpolation \<Rightarrow> OptimizedImage \<Rightarrow> ('p::zero, mat) cv" where
  "extractImage interp optImage =
     then_do (reconstruct interp optImage) (\<lambda>croppedImage.
     then_do (placement optImage croppedImage) (\<lambda>(fullLeft, fullCenter, fullRight).
     then_do (hconcat3 fullLeft fullCenter fullRight Mat_empty) (\<lambda>fullImage.
     then_do (lift (contract (mat_size fullImage = fullSize optImage))) (\<lambda>_.
     lift (Inr fullImage)))))"

subsection \<open>Frame conditions\<close>

text \<open>
  A call leaves the buffers that were allocated before it as they were: it may
  allocate, and it writes to new buffers only.
\<close>

definition unchanged :: "'p store \<Rightarrow> 'p store \<Rightarrow> bool" where
  "unchanged s s' \<longleftrightarrow> fresh s \<le> fresh s' \<and> (\<forall>b\<le>fresh s. mem s' b = mem s b)"

subsection \<open>The invariants of the record, in the words of the specification\<close>

text \<open>
  All five panels are non-empty, both components of \<open>origHSize\<close> and \<open>origVSize\<close> are
  strictly positive, and \<open>0 \<le> leftBuffer < fullSize.width\<close>.
\<close>

definition record_invariant :: "OptimizedImage \<Rightarrow> bool" where
  "record_invariant opt \<longleftrightarrow>
     \<not> size_empty (mat_size (focused opt)) \<and>
     \<not> size_empty (mat_size (blurredLeft opt)) \<and>
     \<not> size_empty (mat_size (blurredRight opt)) \<and>
     \<not> size_empty (mat_size (blurredTop opt)) \<and>
     \<not> size_empty (mat_size (blurredBottom opt)) \<and>
     0 < width (origHSize opt) \<and> 0 < height (origHSize opt) \<and>
     0 < width (origVSize opt) \<and> 0 < height (origVSize opt) \<and>
     0 \<le> leftBuffer opt \<and> leftBuffer opt < width (fullSize opt)"

subsection \<open>Test frames\<close>

text \<open>
  A frame of \<open>w\<close> columns and \<open>h\<close> rows of three-channel 8-bit pixels (type 16), held
  in buffer 1, and a store in which that buffer is the only one allocated and pixel
  \<open>(r, c)\<close> has the value \<open>1000 * r + c + 1\<close>. The interpolation \<open>flat\<close> makes every
  resized pixel 7.
\<close>

definition frame :: "int \<Rightarrow> int \<Rightarrow> mat" where
  "frame w h = \<lparr>rows = h, cols = w, mtype = 16, buf = 1, row0 = 0, col0 = 0\<rparr>"

definition store0 :: "int store" where
  "store0 = \<lparr>mem = (\<lambda>b r c. 1000 * r + c + 1), fresh = 1\<rparr>"

definition flat :: "int interpolation" where
  "flat p ssize dsize r c = 7"

text \<open>
  The records that the encoder returns for the frame of 360 by 180 pixels at azimuth
  180 and the elevations 90 and 60, and for the frame of 360 by 17 pixels at azimuth
  180 and elevation 90, where the focused panel is the released view of the empty row
  range \<open>[8, 8)\<close>.
\<close>

definition encoded_90 :: OptimizedImage where
  "encoded_90 =
     \<lparr>focused = \<lparr>rows = 20, cols = 20, mtype = 16, buf = 1, row0 = 80, col0 = 170\<rparr>,
      blurredLeft = \<lparr>rows = 36, cols = 10, mtype = 16, buf = 2, row0 = 0, col0 = 0\<rparr>,
      blurredRight = \<lparr>rows = 36, cols = 10, mtype = 16, buf = 3, row0 = 0, col0 = 0\<rparr>,
      blurredTop = \<lparr>rows = 16, cols = 4, mtype = 16, buf = 4, row0 = 0, col0 = 0\<rparr>,
      blurredBottom = \<lparr>rows = 16, cols = 4, mtype = 16, buf = 5, row0 = 0, col0 = 0\<rparr>,
      origHSize = \<lparr>width = 50, height = 180\<rparr>,
      origVSize = \<lparr>width = 20, height = 80\<rparr>,
      fullSize = \<lparr>width = 360, height = 180\<rparr>,
      leftBuffer = 120\<rparr>"

definition encoded_60 :: OptimizedImage where
  "encoded_60 =
     \<lparr>focused = \<lparr>rows = 20, cols = 20, mtype = 16, buf = 1, row0 = 50, col0 = 170\<rparr>,
      blurredLeft = \<lparr>rows = 36, cols = 10, mtype = 16, buf = 2, row0 = 0, col0 = 0\<rparr>,
      blurredRight = \<lparr>rows = 36, cols = 10, mtype = 16, buf = 3, row0 = 0, col0 = 0\<rparr>,
      blurredTop = \<lparr>rows = 10, cols = 4, mtype = 16, buf = 4, row0 = 0, col0 = 0\<rparr>,
      blurredBottom = \<lparr>rows = 10, cols = 4, mtype = 16, buf = 5, row0 = 0, col0 = 0\<rparr>,
      origHSize = \<lparr>width = 50, height = 180\<rparr>,
      origVSize = \<lparr>width = 20, height = 50\<rparr>,
      fullSize = \<lparr>width = 360, height = 180\<rparr>,
      leftBuffer = 120\<rparr>"

definition encoded_17 :: OptimizedImage where
  "encoded_17 =
     \<lparr>focused = \<lparr>rows = 0, cols = 0, mtype = 16, buf = 0, row0 = 0, col0 = 0\<rparr>,
      blurredLeft = \<lparr>rows = 3, cols = 10, mtype = 16, buf = 2, row0 = 0, col0 = 0\<rparr>,
      blurredRight = \<lparr>rows = 3, cols = 10, mtype = 16, buf = 3, row0 = 0, col0 = 0\<rparr>,
      blurredTop = \<lparr>rows = 1, cols = 4, mtype = 16, buf = 4, row0 = 0, col0 = 0\<rparr>,
      blurredBottom = \<lparr>rows = 1, cols = 4, mtype = 16, buf = 5, row0 = 0, col0 = 0\<rparr>,
      origHSize = \<lparr>width = 50, height = 17\<rparr>,
      origVSize = \<lparr>width = 20, height = 8\<rparr>,
      fullSize = \<lparr>width = 360, height = 17\<rparr>,
      leftBuffer = 120\<rparr>"

section \<open>Properties\<close>

subsection \<open>Rounding\<close>

lemma round_even_error: "\<bar>of_int (round_even x) - x\<bar> \<le> 1 / 2"
proof -
  have "of_int \<lfloor>x\<rfloor> \<le> x" "x < of_int \<lfloor>x\<rfloor> + 1" by linarith+
  then show ?thesis
    by (auto simp: round_even_def Let_def abs_le_iff)
qed

lemma ilog2_le:
  assumes "0 < x"
  shows "2 powi ilog2 x \<le> x"
proof -
  obtain p q where pq: "quotient_of x = (p, q)" by fastforce
  have q: "0 < q" using quotient_of_denom_pos[OF pq] .
  have x: "x = of_int p / of_int q" using quotient_of_div[OF pq] .
  have p: "0 < p" using assms q x by (simp add: zero_less_divide_iff)
  have bp: "1 \<le> bitlen p" using p by (simp add: bitlen_alt_def)
  have bq: "0 \<le> bitlen q" by (rule bitlen_nonneg)
  have "2 ^ nat (bitlen p - 1) \<le> p" using bitlen_bounds[OF p] by simp
  then have "(of_int (2 ^ nat (bitlen p - 1)) :: rat) \<le> of_int p"
    by (simp only: of_int_le_iff)
  then have 1: "(2::rat) powi (bitlen p - 1) \<le> of_int p"
    using bp by (simp add: power_int_def)
  have "q \<le> 2 ^ nat (bitlen q)" using bitlen_bounds[OF q] by simp
  then have "(of_int q :: rat) \<le> of_int (2 ^ nat (bitlen q))"
    by (simp only: of_int_le_iff)
  then have 2: "(of_int q :: rat) \<le> 2 powi bitlen q"
    using bq by (simp add: power_int_def)
  have "(2::rat) powi (bitlen p - 1) / 2 powi bitlen q \<le> of_int p / of_int q"
    using 1 2 q p by (intro frac_le) auto
  moreover have "(2::rat) powi (bitlen p - 1) / 2 powi bitlen q = 2 powi (bitlen p - bitlen q - 1)"
    by (simp add: power_int_diff)
  ultimately have "(2::rat) powi (bitlen p - bitlen q - 1) \<le> x"
    using x by simp
  then show ?thesis
    by (simp add: ilog2_def Let_def pq)
qed

lemma ilog2_less:
  assumes "0 < x"
  shows "x < 2 powi (ilog2 x + 1)"
proof -
  obtain p q where pq: "quotient_of x = (p, q)" by fastforce
  have q: "0 < q" using quotient_of_denom_pos[OF pq] .
  have x: "x = of_int p / of_int q" using quotient_of_div[OF pq] .
  have p: "0 < p" using assms q x by (simp add: zero_less_divide_iff)
  have bp: "0 \<le> bitlen p" by (rule bitlen_nonneg)
  have bq: "1 \<le> bitlen q" using q by (simp add: bitlen_alt_def)
  have "p < 2 ^ nat (bitlen p)" using bitlen_bounds[OF p] by simp
  then have "(of_int p :: rat) < of_int (2 ^ nat (bitlen p))"
    by (simp only: of_int_less_iff)
  then have 1: "(of_int p :: rat) < 2 powi bitlen p"
    using bp by (simp add: power_int_def)
  have "2 ^ nat (bitlen q - 1) \<le> q" using bitlen_bounds[OF q] by simp
  then have "(of_int (2 ^ nat (bitlen q - 1)) :: rat) \<le> of_int q"
    by (simp only: of_int_le_iff)
  then have 2: "(2::rat) powi (bitlen q - 1) \<le> of_int q"
    using bq by (simp add: power_int_def)
  have "of_int p / of_int q < (2::rat) powi bitlen p / 2 powi (bitlen q - 1)"
    using 1 2 q p by (intro frac_less) auto
  moreover have "(2::rat) powi bitlen p / 2 powi (bitlen q - 1) = 2 powi (bitlen p - bitlen q + 1)"
    by (simp add: power_int_diff power_int_add)
  ultimately have "x < 2 powi (bitlen p - bitlen q + 1)"
    using x by simp
  then show ?thesis
    by (auto simp: ilog2_def Let_def pq not_le)
qed

lemma rd_error: "\<bar>rd x - x\<bar> \<le> \<bar>x\<bar> / 2 ^ 53"
proof (cases "x = 0")
  case True
  then show ?thesis by (simp add: rd_def)
next
  case False
  define u :: rat where "u = 2 powi (ilog2 \<bar>x\<bar> - 52)"
  have u: "0 < u" by (simp add: u_def)
  have "\<bar>of_int (round_even (x / u)) - x / u\<bar> \<le> 1 / 2" by (rule round_even_error)
  then have "\<bar>of_int (round_even (x / u)) - x / u\<bar> * u \<le> 1 / 2 * u"
    using u by (intro mult_right_mono) auto
  moreover have "\<bar>of_int (round_even (x / u)) - x / u\<bar> * u = \<bar>of_int (round_even (x / u)) * u - x\<bar>"
  proof -
    have "\<bar>of_int (round_even (x / u)) - x / u\<bar> * u = \<bar>(of_int (round_even (x / u)) - x / u) * u\<bar>"
      using u by (simp add: abs_mult)
    also have "(of_int (round_even (x / u)) - x / u) * u = of_int (round_even (x / u)) * u - x"
      using u by (simp add: left_diff_distrib)
    finally show ?thesis .
  qed
  ultimately have "\<bar>of_int (round_even (x / u)) * u - x\<bar> \<le> u / 2"
    by simp
  moreover have "rd x = of_int (round_even (x / u)) * u"
    using False by (simp add: rd_def u_def Let_def)
  ultimately have 1: "\<bar>rd x - x\<bar> \<le> u / 2"
    by simp
  have "2 powi ilog2 \<bar>x\<bar> \<le> \<bar>x\<bar>" using False by (intro ilog2_le) auto
  moreover have "u = 2 powi ilog2 \<bar>x\<bar> / 2 ^ 52"
    by (simp add: u_def power_int_diff)
  ultimately have "u / 2 \<le> \<bar>x\<bar> / 2 ^ 53" by simp
  with 1 show ?thesis by linarith
qed


lemma rd_nonneg: "0 \<le> x \<Longrightarrow> 0 \<le> rd x"
proof -
  assume x: "0 \<le> x"
  have "x / 2 ^ 53 \<le> x" using x by (simp add: divide_le_eq)
  moreover have "\<bar>rd x - x\<bar> \<le> x / 2 ^ 53" using rd_error[of x] x by simp
  ultimately show ?thesis by linarith
qed

text \<open>
  The rounding on known values: \<^verbatim>\<open>1000 / 360.0\<close> is the \<^verbatim>\<open>double\<close>
  \<open>3127499741229511 / 2 ^ 50\<close>; a number of at most 53 significant bits is not
  changed; \<open>2 ^ 53 + 1\<close> is halfway between two neighbours and goes to the even
  one; and \<^verbatim>\<open>int(180 * (26 / 360.0))\<close> is 12, where the exact product is 13.
\<close>

lemma rd_examples:
  "ddiv 1000 360 = 3127499741229511 / 2 ^ 50"
  "rd 360 = 360" "rd (1 / 2) = 1 / 2" "rd (2 ^ 53 + 1) = 2 ^ 53"
  "d2i (dmul 180 (ddiv 26 360)) = Inr 12"
  by code_simp+

lemma sdiv_nonneg_eq: "0 \<le> k \<Longrightarrow> 0 < l \<Longrightarrow> k sdiv l = k div (l::int)"
  by (simp add: signed_divide_int_def sgn_if)

lemma and_then_Inr_iff [simp]:
  "and_then r f = Inr y \<longleftrightarrow> (\<exists>x. r = Inr x \<and> f x = Inr y)"
  by (cases r) (simp_all add: and_then_def)

lemma contract_Inr_iff [simp]: "contract b = Inr u \<longleftrightarrow> b"
  by (simp add: contract_def)

lemma checked_Inr_iff [simp]: "checked n = Inr m \<longleftrightarrow> m = n \<and> - (2 ^ 31) \<le> n \<and> n < 2 ^ 31"
  by (auto simp: checked_def)

lemma constrainAngle_eq: "constrainAngle x = Inr (x mod 360)"
proof -
  have "0 \<le> x mod 360" "x mod 360 < 360" by simp_all
  moreover have "(if x smod 360 < 0 then x smod 360 + 360 else x smod 360) = x mod 360"
    by (auto simp: signed_modulo_int_eq_modulo_int sgn_if split: if_splits)
  ultimately show ?thesis
    by (simp add: constrainAngle_def Let_def and_then_def contract_def)
qed

text \<open>The double computed for \<open>a * (w / d)\<close> and its distance from the exact value.\<close>

lemma dmul_ddiv_error:
  assumes "0 \<le> a" "0 \<le> w" "0 < d"
  shows "\<bar>dmul a (ddiv w d) - a * w / d\<bar> \<le> (a * w / d) * (3 / 2 ^ 53)"
proof -
  define q where "q = w / d"
  define A where "A = rd q"
  have q: "0 \<le> q" using assms by (simp add: q_def)
  have A: "\<bar>A - q\<bar> \<le> q / 2 ^ 53" using rd_error[of q] q by (simp add: A_def)
  have A0: "0 \<le> A" using rd_nonneg[OF q] by (simp add: A_def)
  have Aq: "A \<le> q + q / 2 ^ 53" using A by linarith
  define X where "X = rd (a * A)"
  define Y where "Y = a * A"
  define Z where "Z = a * q"
  have 1: "\<bar>X - Y\<bar> \<le> Y / 2 ^ 53"
    using rd_error[of "a * A"] assms A0 by (simp add: abs_mult X_def Y_def)
  have 2: "Y \<le> Z + Z / 2 ^ 53"
  proof -
    have "a * A \<le> a * (q + q / 2 ^ 53)"
      using Aq assms by (intro mult_left_mono) auto
    then show ?thesis by (simp add: Y_def Z_def algebra_simps)
  qed
  have 3: "\<bar>Y - Z\<bar> \<le> Z / 2 ^ 53"
  proof -
    have "\<bar>a * A - a * q\<bar> = a * \<bar>A - q\<bar>"
      using assms by (simp add: abs_mult right_diff_distrib[symmetric])
    also have "\<dots> \<le> a * (q / 2 ^ 53)" using A assms by (intro mult_left_mono) auto
    finally show ?thesis by (simp add: Y_def Z_def)
  qed
  have 4: "0 \<le> Z" using assms q by (simp add: Z_def)
  have "Y / 2 ^ 53 \<le> Z * (2 / 2 ^ 53)"
    using 2 4 by simp
  moreover have "\<bar>X - Z\<bar> \<le> \<bar>X - Y\<bar> + \<bar>Y - Z\<bar>"
    by simp
  ultimately have "\<bar>X - Z\<bar> \<le> Z * (2 / 2 ^ 53) + Z / 2 ^ 53"
    using 1 3 by linarith
  then have "\<bar>X - Z\<bar> \<le> Z * (3 / 2 ^ 53)"
    by simp
  then have "\<bar>rd (a * A) - a * q\<bar> \<le> (a * q) * (3 / 2 ^ 53)"
    by (simp only: X_def Z_def)
  then show ?thesis by (simp add: dmul_def ddiv_def A_def q_def)
qed


lemma dmul_ddiv_nonneg:
  assumes "0 \<le> a" "0 \<le> w" "0 < d"
  shows "0 \<le> dmul a (ddiv w d)"
  using assms by (auto simp: dmul_def ddiv_def intro!: rd_nonneg mult_nonneg_nonneg)

text \<open>
  The column (or row) computed for the angle \<open>a\<close> on an axis of \<open>w\<close> pixels that spans
  \<open>d\<close> degrees is the exact quotient \<open>a * w / d\<close> rounded down, or one less when the
  quotient is an integer.
\<close>

lemma scaled_bounds:
  fixes a w d :: int
  assumes a: "0 \<le> a" "a \<le> d" and d: "0 < d" "d \<le> 360" and w: "0 \<le> w" "w < 2 ^ 31"
  shows "\<exists>k. d2i (dmul (of_int a) (ddiv (of_int w) (of_int d))) = Inr k \<and>
             0 \<le> k \<and> a * w - d \<le> d * k \<and> d * k \<le> a * w"
proof -
  define B where "B = dmul (of_int a) (ddiv (of_int w) (of_int d))"
  define x :: rat where "x = of_int a * of_int w / of_int d"
  define k where "k = \<lfloor>B\<rfloor>"
  have B0: "0 \<le> B"
    unfolding B_def using a d w by (intro dmul_ddiv_nonneg) auto
  have x0: "0 \<le> x" using a d w by (simp add: x_def)
  have "x \<le> of_int w"
  proof -
    have "of_int a * of_int w \<le> (of_int d :: rat) * of_int w"
      using a w by (intro mult_right_mono) auto
    then show ?thesis using d by (simp add: x_def divide_le_eq mult.commute)
  qed
  also have "(of_int w :: rat) \<le> 2 ^ 31"
  proof -
    have "(of_int w :: rat) \<le> of_int (2 ^ 31)" using w by (simp only: of_int_le_iff)
    then show ?thesis by simp
  qed
  finally have x31: "x \<le> 2 ^ 31" .
  have "\<bar>B - x\<bar> \<le> x * (3 / 2 ^ 53)"
    unfolding B_def x_def using a d w by (intro dmul_ddiv_error) auto
  moreover have "x * (3 / 2 ^ 53) \<le> 2 ^ 31 * (3 / 2 ^ 53)"
    using x31 by (intro mult_right_mono) auto
  ultimately have err: "\<bar>B - x\<bar> \<le> 1 / 2 ^ 20" by simp
  have k0: "0 \<le> k" using B0 by (simp add: k_def)
  have kB: "of_int k \<le> B" "B < of_int k + 1" unfolding k_def by linarith+
  have dx: "of_int d * x = of_int (a * w)" using d by (simp add: x_def)
  have dpos: "(0::rat) < of_int d" "(of_int d :: rat) \<le> 360"
    using d by simp_all
  have "of_int k \<le> x + 1 / 2 ^ 20" using kB err by linarith
  then have "of_int d * of_int k \<le> of_int d * (x + 1 / 2 ^ 20)"
    using dpos by (intro mult_left_mono) auto
  also have "\<dots> = of_int (a * w) + of_int d / 2 ^ 20"
    using dx by (simp add: algebra_simps)
  also have "\<dots> < of_int (a * w) + 1" using dpos by simp
  finally have "(of_int (d * k) :: rat) < of_int (a * w + 1)" by simp
  then have "d * k < a * w + 1" by (simp only: of_int_less_iff)
  then have up: "d * k \<le> a * w" by simp
  have "x - 1 / 2 ^ 20 < of_int k + 1" using kB err by linarith
  then have "of_int d * (x - 1 / 2 ^ 20) < of_int d * (of_int k + 1)"
    using dpos by (intro mult_strict_left_mono) auto
  moreover have "of_int d * (x - 1 / 2 ^ 20) = of_int (a * w) - of_int d / 2 ^ 20"
    using dx by (simp add: algebra_simps)
  moreover have "of_int (a * w) - 1 < of_int (a * w) - (of_int d :: rat) / 2 ^ 20"
    using dpos by simp
  ultimately have "(of_int (a * w) :: rat) - 1 < of_int d * (of_int k + 1)" by linarith
  then have "(of_int (a * w - 1) :: rat) < of_int (d * (k + 1))" by simp
  then have "a * w - 1 < d * (k + 1)" by (simp only: of_int_less_iff)
  then have lo: "a * w - d \<le> d * k" by (simp add: algebra_simps)
  have "d * k \<le> d * w"
  proof -
    have "a * w \<le> d * w" using a w by (intro mult_right_mono) auto
    with up show ?thesis by linarith
  qed
  then have "k \<le> w" using d by simp
  then have "k < 2 ^ 31" using w by linarith
  then have "d2i B = Inr k"
    using k0 B0 by (simp add: d2i_def checked_def trunc_def k_def)
  then show ?thesis using k0 up lo unfolding B_def by blast
qed


subsection \<open>Steps that can fail\<close>

lemma then_do_Inr_iff:
  "then_do m f s = (Inr y, s') \<longleftrightarrow> (\<exists>x s1. m s = (Inr x, s1) \<and> f x s1 = (Inr y, s'))"
  by (auto simp: then_do_def split: prod.splits sum.splits)

lemma lift_eq_iff: "lift r s = (x, s') \<longleftrightarrow> r = x \<and> s = s'"
  by (auto simp: lift_def)

lemma release_sel [simp]:
  "rows (release m) = 0" "cols (release m) = 0" "buf (release m) = 0"
  "mtype (release m) = mtype m" "row0 (release m) = 0" "col0 (release m) = 0"
  by (simp_all add: release_def)

text \<open>
  A view of a column range, and a view of a row range: the range must fit, and the
  view is released when the range or the matrix is empty.
\<close>

lemma Mat_view_cols_Inr_iff:
  "Mat_view m Range_all (Range_of a b) = Inr v \<longleftrightarrow>
     0 \<le> a \<and> a \<le> b \<and> b \<le> cols m \<and>
     v = (if 0 < rows m \<and> a < b then m\<lparr>cols := b - a, col0 := col0 m + a\<rparr> else release m)"
  by (auto simp: Mat_view_def rowRange_of_def colRange_of_def release_def)

lemma Mat_view_rows_Inr_iff:
  "Mat_view m (Range_of a b) Range_all = Inr v \<longleftrightarrow>
     0 \<le> a \<and> a \<le> b \<and> b \<le> rows m \<and>
     v = (if 0 < cols m \<and> a < b then m\<lparr>rows := b - a, row0 := row0 m + a\<rparr> else release m)"
  by (auto simp: Mat_view_def rowRange_of_def colRange_of_def release_def)

lemma Mat_view_rows_Inl_iff:
  "Mat_view m (Range_of a b) Range_all = Inl e \<longleftrightarrow>
     \<not> (0 \<le> a \<and> a \<le> b \<and> b \<le> rows m) \<and> e = CvException"
  by (auto simp: Mat_view_def rowRange_of_def colRange_of_def and_then_def)

lemma create_Mat_empty:
  "create Mat_empty r c t s =
     (if r < 0 \<or> c < 0 then (Inl CvException, s)
      else (Inr \<lparr>rows = r, cols = c, mtype = t, buf = Suc (fresh s), row0 = 0, col0 = 0\<rparr>,
            s\<lparr>fresh := Suc (fresh s)\<rparr>))"
  by (simp add: create_def Mat_empty_def)

lemma hconcat_Mat_empty_Inr_iff:
  "hconcat (m0 # ms) Mat_empty s = (Inr d, s') \<longleftrightarrow>
     list_all (\<lambda>m. rows m = rows m0 \<and> mtype m = mtype m0) (m0 # ms) \<and>
     0 \<le> rows m0 \<and> 0 \<le> sum_list (map cols (m0 # ms)) \<and>
     d = \<lparr>rows = rows m0, cols = sum_list (map cols (m0 # ms)), mtype = mtype m0,
          buf = Suc (fresh s), row0 = 0, col0 = 0\<rparr> \<and>
     s' = hconcat_copy (m0 # ms) d 0 (s\<lparr>fresh := Suc (fresh s)\<rparr>)"
  by (auto simp: hconcat_def create_Mat_empty simp del: hconcat_copy.simps)

lemma Mat_view_cols_Inr:
  "0 \<le> a \<Longrightarrow> a < b \<Longrightarrow> b \<le> cols m \<Longrightarrow> 0 < rows m \<Longrightarrow>
   Mat_view m Range_all (Range_of a b) = Inr (m\<lparr>cols := b - a, col0 := col0 m + a\<rparr>)"
  by (simp add: Mat_view_cols_Inr_iff)


subsection \<open>The crop window\<close>

text \<open>
  The crop of a frame that has rows: in the seam branch the part to the right of the
  seam is not empty, because \<^verbatim>\<open>hconcat\<close> rejects a released view beside a view with
  rows.
\<close>

lemma cropping_size:
  assumes "cropping img l r s = (Inr cropped, s')" and "0 < rows img" and "l < cols img"
  shows "cols cropped = (if l < r then r - l else cols img - l + r)"
    and "rows cropped = rows img" and "mtype cropped = mtype img"
    and "\<not> l < r \<Longrightarrow> 0 < r"
  using assms
  by (auto simp: cropping_def lift_eq_iff then_do_Inr_iff Mat_view_cols_Inr_iff
      hconcat_Mat_empty_Inr_iff simp del: hconcat_copy.simps split: if_splits)

text \<open>The crop of a frame without rows has no columns.\<close>

lemma cropping_empty:
  assumes "cropping img l r s = (Inr cropped, s')" and "rows img \<le> 0"
  shows "cols cropped = 0"
  using assms
  by (auto simp: cropping_def lift_eq_iff then_do_Inr_iff Mat_view_cols_Inr_iff
      hconcat_Mat_empty_Inr_iff simp del: hconcat_copy.simps split: if_splits)


lemma cropColumns_eq:
  "cropColumns img angle = Inr (l, r) \<longleftrightarrow>
     d2i (dmul (of_int ((angle mod 360 - 60) mod 360)) (angleToWidth img)) = Inr l \<and>
     d2i (dmul (of_int ((angle mod 360 + 60) mod 360)) (angleToWidth img)) = Inr r \<and>
     0 \<le> l \<and> l < cols img \<and> 0 \<le> r \<and> r < cols img"
  by (auto simp: cropColumns_def constrainAngle_eq CROP_ANGLE_def H_FOCUS_ANGLE_def
        signed_divide_int_def)




subsection \<open>Angle normalisation\<close>

text \<open>
  The \<^verbatim>\<open>int\<close> overload maps every integer into \<open>[0, 360)\<close> and leaves its own
  results unchanged.
\<close>

lemma constrainAngle_range:
  "\<exists>y. constrainAngle x = Inr y \<and> 0 \<le> y \<and> y < 360 \<and> constrainAngle y = Inr y"
  by (simp add: constrainAngle_eq)

lemma fmod_in_range: "0 \<le> y \<Longrightarrow> y < 360 \<Longrightarrow> fmod y 360 = y"
proof -
  assume y: "0 \<le> y" "y < 360"
  then have "0 \<le> y / 360" "y / 360 < 1" by simp_all
  then have "\<lfloor>y / 360\<rfloor> = 0" by linarith
  then show ?thesis using y by (simp add: fmod_def trunc_def)
qed

text \<open>
  When the \<^verbatim>\<open>double\<close> overload returns, its result is in \<open>[0, 360)\<close> and a second
  call leaves it unchanged.
\<close>

lemma constrainAngle_double_returned:
  assumes "constrainAngle_double x = Inr y"
  shows "0 \<le> y \<and> y < 360 \<and> constrainAngle_double y = Inr y"
proof -
  from assms have y: "0 \<le> y" "y < 360"
    by (auto simp: constrainAngle_double_def Let_def split: if_splits)
  then show ?thesis
    by (simp add: constrainAngle_double_def Let_def fmod_in_range not_less)
qed

text \<open>
  C5. The claim: for every integer and every real input \<open>x\<close>, \<^verbatim>\<open>constrainAngle(x)\<close> lies
  in \<open>[0, 360)\<close>, and \<^verbatim>\<open>constrainAngle\<close> is idempotent. The \<^verbatim>\<open>double\<close> overload
  breaks it on the input \<open>- 2 powi -60\<close>: \<^verbatim>\<open>fmod\<close> returns the input, which is
  negative, the sum with 360 rounds to 360, and the \<^verbatim>\<open>ENSURES\<close> of the overload
  fails.
\<close>

theorem constrainAngle_double_leaves_range:
  "fmod (- (1 / 2 ^ 60)) 360 = - (1 / 2 ^ 60) \<and>
   dadd (- (1 / 2 ^ 60)) 360 = 360 \<and>
   constrainAngle_double (- (1 / 2 ^ 60)) = Inl ContractViolation"
  by code_simp



subsection \<open>The seam\<close>







subsection \<open>The width of the crop\<close>






subsection \<open>The height of the focus band\<close>

lemma focusHeight_18: "d2i (dmul 20 (ddiv 18 180)) = Inr 2"
  by code_simp

lemma d2i_0: "d2i (dmul 0 x) = Inr 0"
  by (simp add: d2i_def dmul_def rd_def trunc_def checked_def)

lemma focusHeight_bounds:
  assumes "18 \<le> rows img" "rows img < 2 ^ 31"
  shows "\<exists>k. d2i (dmul (of_int V_FOCUS_ANGLE) (angleToHeight img)) = Inr k \<and>
             2 \<le> k \<and> k \<le> rows img"
proof (cases "rows img = 18")
  case True
  then show ?thesis by (simp add: angleToHeight_def V_FOCUS_ANGLE_def focusHeight_18)
next
  case False
  obtain k where k: "d2i (dmul (of_int 20) (ddiv (of_int (rows img)) (of_int 180))) = Inr k"
      "20 * rows img - 180 \<le> 180 * k" "180 * k \<le> 20 * rows img"
    using scaled_bounds[of 20 180 "rows img"] assms by auto
  have "2 \<le> k" "k \<le> rows img" using k False assms by linarith+
  then show ?thesis using k by (simp add: angleToHeight_def V_FOCUS_ANGLE_def)
qed

subsection \<open>Writes go to new buffers\<close>

lemma unchanged_refl [simp]: "unchanged s s"
  by (simp add: unchanged_def)

lemma unchanged_trans: "unchanged s s1 \<Longrightarrow> unchanged s1 s2 \<Longrightarrow> unchanged s s2"
  by (auto simp: unchanged_def)

lemma unchanged_pixel: "unchanged s s' \<Longrightarrow> buf m \<le> fresh s \<Longrightarrow> pixel s' m = pixel s m"
  by (auto simp: unchanged_def pixel_def fun_eq_iff)

lemma then_do_cases:
  assumes "then_do m f s = (res, s')"
  obtains (fail) e where "m s = (Inl e, s')" "res = Inl e"
    | (ok) x s1 where "m s = (Inr x, s1)" "f x s1 = (res, s')"
  using assms by (auto simp: then_do_def split: prod.splits sum.splits)

lemma write_px_fresh [simp]: "fresh (write_px m f s) = fresh s"
  by (simp add: write_px_def)

lemma write_px_other: "b \<noteq> buf m \<Longrightarrow> mem (write_px m f s) b = mem s b"
  by (simp add: write_px_def)

lemma create_new:
  assumes "rows m \<noteq> r \<or> cols m \<noteq> c \<or> mtype m \<noteq> t \<or> buf m = 0"
  shows "create m r c t s =
     (if r < 0 \<or> c < 0 then (Inl CvException, s)
      else (Inr \<lparr>rows = r, cols = c, mtype = t, buf = Suc (fresh s), row0 = 0, col0 = 0\<rparr>,
            s\<lparr>fresh := Suc (fresh s)\<rparr>))"
  using assms by (auto simp: create_def)

text \<open>A resize whose destination does not already have the target size.\<close>

lemma resize_new:
  assumes "(rows dst, cols dst) \<noteq> (height dsize, width dsize) \<or> buf dst = 0"
  shows "resize interp src dst dsize s =
     (if rows src \<le> 0 \<or> cols src \<le> 0 \<or> width dsize \<le> 0 \<or> height dsize \<le> 0
      then (Inl CvException, s)
      else (Inr \<lparr>rows = height dsize, cols = width dsize, mtype = mtype src,
                  buf = Suc (fresh s), row0 = 0, col0 = 0\<rparr>,
            write_px \<lparr>rows = height dsize, cols = width dsize, mtype = mtype src,
                  buf = Suc (fresh s), row0 = 0, col0 = 0\<rparr>
              (interp (pixel s src) (mat_size src) dsize) (s\<lparr>fresh := Suc (fresh s)\<rparr>)))"
proof -
  have "create dst (height dsize) (width dsize) (mtype src) s =
     (if height dsize < 0 \<or> width dsize < 0 then (Inl CvException, s)
      else (Inr \<lparr>rows = height dsize, cols = width dsize, mtype = mtype src,
                  buf = Suc (fresh s), row0 = 0, col0 = 0\<rparr>,
            s\<lparr>fresh := Suc (fresh s)\<rparr>))"
    using assms by (intro create_new) auto
  then show ?thesis
    by (auto simp: resize_def size_empty_def mat_size_def)
qed

lemma resize_new_unchanged:
  assumes "(rows dst, cols dst) \<noteq> (height dsize, width dsize) \<or> buf dst = 0"
    and "resize interp src dst dsize s = (res, s')"
  shows "unchanged s s'"
  using assms(2) unfolding resize_new[OF assms(1)]
  by (auto simp: unchanged_def write_px_other split: if_splits)

lemma hconcat_copy_fresh [simp]: "fresh (hconcat_copy ms d c s) = fresh s"
  by (induction ms arbitrary: c s) simp_all

lemma hconcat_copy_other: "b \<noteq> buf d \<Longrightarrow> mem (hconcat_copy ms d c s) b = mem s b"
  by (induction ms arbitrary: c s) (simp_all add: write_px_other)

lemma vconcat_copy_fresh [simp]: "fresh (vconcat_copy ms d c s) = fresh s"
  by (induction ms arbitrary: c s) simp_all

lemma vconcat_copy_other: "b \<noteq> buf d \<Longrightarrow> mem (vconcat_copy ms d c s) b = mem s b"
  by (induction ms arbitrary: c s) (simp_all add: write_px_other)

lemma hconcat_Mat_empty_unchanged:
  assumes "hconcat ms Mat_empty s = (res, s')"
  shows "unchanged s s'"
  using assms
  by (auto simp: hconcat_def create_Mat_empty unchanged_def hconcat_copy_other
      split: list.splits if_splits simp del: hconcat_copy.simps)

lemma vconcat_Mat_empty_unchanged:
  assumes "vconcat ms Mat_empty s = (res, s')"
  shows "unchanged s s'"
  using assms
  by (auto simp: vconcat_def create_Mat_empty unchanged_def vconcat_copy_other
      split: list.splits if_splits simp del: vconcat_copy.simps)

lemma cropping_unchanged:
  assumes "cropping img l r s = (res, s')"
  shows "unchanged s s'"
  using assms
  by (auto simp: cropping_def lift_eq_iff elim!: then_do_cases
      dest: hconcat_Mat_empty_unchanged split: if_splits)

text \<open>When the left strip has rows, the right strip has as many.\<close>

lemma splitH_rows:
  assumes "splitH img cropped = Inr (middle, left, right)"
  shows "0 < rows left \<longrightarrow> rows right = rows left"
  using assms by (auto simp: splitH_def Let_def Mat_view_cols_Inr_iff split: if_splits)

lemma blurH_unchanged:
  assumes "blurH interp left right s = (res, s')" and "0 < rows left \<longrightarrow> rows right = rows left"
  shows "unchanged s s'"
proof -
  let ?small = "\<lparr>width = cols left sdiv BLUR_FACTOR, height = rows left sdiv BLUR_FACTOR\<rparr>"
  from assms(1) show ?thesis
    unfolding blurH_def Let_def
  proof (cases rule: then_do_cases)
    case (fail e)
    show ?thesis
    proof (cases "0 < rows left")
      case True
      then have "rows left sdiv BLUR_FACTOR \<noteq> rows left"
        by (simp add: BLUR_FACTOR_def sdiv_nonneg_eq)
      then show ?thesis using fail(1) by (intro resize_new_unchanged[OF _ fail(1)]) auto
    next
      case False
      then show ?thesis using fail(1) by (auto simp: resize_def size_empty_def mat_size_def)
    qed
  next
    case (ok bl s1)
    have pos: "0 < rows left" using ok(1)
      by (auto simp: resize_def size_empty_def mat_size_def split: if_splits)
    then have ne: "rows left sdiv BLUR_FACTOR \<noteq> rows left"
      by (simp add: BLUR_FACTOR_def sdiv_nonneg_eq)
    have rr: "rows right = rows left" using pos assms(2) by simp
    have 1: "unchanged s s1"
      using ne by (intro resize_new_unchanged[OF _ ok(1)]) auto
    from ok(2) have "unchanged s1 s'"
    proof (cases rule: then_do_cases)
      case (fail e)
      show ?thesis using ne rr by (intro resize_new_unchanged[OF _ fail(1)]) auto
    next
      case (ok br s2)
      have "unchanged s1 s2"
        using ne rr by (intro resize_new_unchanged[OF _ ok(1)]) auto
      then show ?thesis using ok(2) by (simp add: lift_eq_iff)
    qed
    with 1 show ?thesis by (rule unchanged_trans)
  qed
qed

lemma resize_Mat_empty_unchanged:
  assumes "resize interp src Mat_empty dsize s = (res, s')"
  shows "unchanged s s'"
  by (rule resize_new_unchanged[OF _ assms]) (simp add: Mat_empty_def)

lemma blurV_unchanged:
  assumes "blurV interp t b s = (res, s')"
  shows "unchanged s s'"
  using assms unfolding blurV_def Let_def
proof (cases rule: then_do_cases)
  case (fail e)
  then show ?thesis by (auto dest: resize_Mat_empty_unchanged)
next
  case (ok bt s1)
  have 1: "unchanged s s1" using ok(1) by (rule resize_Mat_empty_unchanged)
  from ok(2) have "unchanged s1 s'"
    by (cases rule: then_do_cases) (auto simp: lift_eq_iff dest: resize_Mat_empty_unchanged)
  with 1 show ?thesis by (rule unchanged_trans)
qed

lemma optimizeImage_unchanged:
  assumes "optimizeImage interp img angle vAngle s = (res, s')"
  shows "unchanged s s'"
  using assms unfolding optimizeImage_def
proof (cases rule: then_do_cases)
  case (fail e)
  then show ?thesis by (simp add: lift_eq_iff)
next
  case (ok lr s1)
  obtain l r where lr: "lr = (l, r)" by (cases lr)
  have s1: "s1 = s" using ok(1) by (simp add: lift_eq_iff)
  from ok(2) show ?thesis unfolding lr prod.case
  proof (cases rule: then_do_cases)
    case (fail e)
    then show ?thesis using s1 by (auto dest: cropping_unchanged)
  next
    case (ok cropped s2)
    have u2: "unchanged s s2" using ok(1) s1 by (auto dest: cropping_unchanged)
    from ok(2) show ?thesis
    proof (cases rule: then_do_cases)
      case (fail e)
      then show ?thesis using u2 by (simp add: lift_eq_iff)
    next
      case (ok mlr s3)
      obtain middle left right where mlr: "mlr = (middle, left, right)" by (cases mlr)
      have sp: "splitH img cropped = Inr (middle, left, right)" "s3 = s2"
        using ok(1) mlr by (simp_all add: lift_eq_iff)
      have rr: "0 < rows left \<longrightarrow> rows right = rows left" using sp(1) by (rule splitH_rows)
      from ok(2) show ?thesis unfolding mlr prod.case
      proof (cases rule: then_do_cases)
        case (fail e)
        then have "unchanged s3 s'" using rr by (auto dest: blurH_unchanged)
        then show ?thesis using u2 sp(2) by (auto intro: unchanged_trans)
      next
        case (ok hb s4)
        have u4: "unchanged s s4"
          using blurH_unchanged[OF ok(1) rr] u2 sp(2) by (auto intro: unchanged_trans)
        obtain oh bl br where hb: "hb = (oh, bl, br)" by (cases hb)
        from ok(2) show ?thesis unfolding hb prod.case
        proof (cases rule: then_do_cases)
          case (fail e)
          then show ?thesis using u4 by (simp add: lift_eq_iff)
        next
          case (ok tb s5)
          obtain t b where tb: "tb = (t, b)" by (cases tb)
          have s5: "s5 = s4" using ok(1) by (simp add: lift_eq_iff)
          from ok(2) show ?thesis unfolding tb prod.case
          proof (cases rule: then_do_cases)
            case (fail e)
            then show ?thesis using u4 s5 by (simp add: lift_eq_iff)
          next
            case (ok tfb s6)
            obtain top foc bottom where tfb: "tfb = (top, foc, bottom)" by (cases tfb)
            have s6: "s6 = s4" using ok(1) s5 by (simp add: lift_eq_iff)
            from ok(2) show ?thesis unfolding tfb prod.case
            proof (cases rule: then_do_cases)
              case (fail e)
              then have "unchanged s6 s'" by (auto dest: blurV_unchanged)
              then show ?thesis using u4 s6 by (auto intro: unchanged_trans)
            next
              case (ok vb s7)
              have "unchanged s6 s7" using ok(1) by (rule blurV_unchanged)
              moreover have "s' = s7" using ok(2) by (auto simp: lift_eq_iff split: prod.splits)
              ultimately show ?thesis using u4 s6 by (auto intro: unchanged_trans)
            qed
          qed
        qed
      qed
    qed
  qed
qed



subsection \<open>The phases of the encoder\<close>

lemma splitH_Inr_iff:
  "splitH img cropped = Inr (middle, left, right) \<longleftrightarrow>
     (\<exists>fw. d2i (dmul (of_int H_FOCUS_ANGLE) (angleToWidth img)) = Inr fw \<and>
        0 \<le> cols cropped sdiv 2 - fw sdiv 2 \<and>
        cols cropped sdiv 2 - fw sdiv 2 \<le> cols cropped sdiv 2 + fw sdiv 2 \<and>
        cols cropped sdiv 2 + fw sdiv 2 < cols cropped \<and>
        middle = (if 0 < rows cropped \<and>
                     cols cropped sdiv 2 - fw sdiv 2 < cols cropped sdiv 2 + fw sdiv 2
                  then cropped\<lparr>cols := cols cropped sdiv 2 + fw sdiv 2 -
                                   (cols cropped sdiv 2 - fw sdiv 2),
                                 col0 := col0 cropped + (cols cropped sdiv 2 - fw sdiv 2)\<rparr>
                  else release cropped) \<and>
        left = (if 0 < rows cropped \<and> 0 < cols cropped sdiv 2 - fw sdiv 2
                then cropped\<lparr>cols := cols cropped sdiv 2 - fw sdiv 2 - 0, col0 := col0 cropped + 0\<rparr>
                else release cropped) \<and>
        right = (if 0 < rows cropped \<and> cols cropped sdiv 2 + fw sdiv 2 < cols cropped
                 then cropped\<lparr>cols := cols cropped - (cols cropped sdiv 2 + fw sdiv 2),
                                col0 := col0 cropped + (cols cropped sdiv 2 + fw sdiv 2)\<rparr>
                 else release cropped))"
  unfolding splitH_def Let_def and_then_Inr_iff contract_Inr_iff Mat_view_cols_Inr_iff
  by (auto split del: if_split)

lemma splitV_Inr_iff:
  "splitV middle t b = Inr (tp, foc, bottom) \<longleftrightarrow>
     0 \<le> t \<and> t \<le> b \<and> b \<le> rows middle \<and>
     tp = (if 0 < cols middle \<and> 0 < t
           then middle\<lparr>rows := t - 0, row0 := row0 middle + 0\<rparr> else release middle) \<and>
     foc = (if 0 < cols middle \<and> t < b
            then middle\<lparr>rows := b - t, row0 := row0 middle + t\<rparr> else release middle) \<and>
     bottom = (if 0 < cols middle \<and> b < rows middle
               then middle\<lparr>rows := rows middle - b, row0 := row0 middle + b\<rparr>
               else release middle)"
  unfolding splitV_def and_then_Inr_iff Mat_view_rows_Inr_iff
  by (auto split del: if_split)

lemma resize_new_Inr_iff:
  assumes "(rows dst, cols dst) \<noteq> (height dsize, width dsize) \<or> buf dst = 0"
  shows "resize interp src dst dsize s = (Inr d, s') \<longleftrightarrow>
     0 < rows src \<and> 0 < cols src \<and> 0 < width dsize \<and> 0 < height dsize \<and>
     d = \<lparr>rows = height dsize, cols = width dsize, mtype = mtype src,
          buf = Suc (fresh s), row0 = 0, col0 = 0\<rparr> \<and>
     s' = write_px d (interp (pixel s src) (mat_size src) dsize) (s\<lparr>fresh := Suc (fresh s)\<rparr>)"
  unfolding resize_new[OF assms] by auto

lemma blurH_Inr_iff:
  assumes "0 < rows left \<longrightarrow> rows right = rows left"
  shows "blurH interp left right s = (Inr (oh, bl, br), s') \<longleftrightarrow>
     5 \<le> rows left \<and> 5 \<le> cols left \<and> 0 < cols right \<and>
     oh = mat_size left \<and>
     bl = \<lparr>rows = rows left div 5, cols = cols left div 5, mtype = mtype left,
           buf = Suc (fresh s), row0 = 0, col0 = 0\<rparr> \<and>
     br = \<lparr>rows = rows left div 5, cols = cols left div 5, mtype = mtype right,
           buf = Suc (Suc (fresh s)), row0 = 0, col0 = 0\<rparr> \<and>
     (\<exists>s1. s1 = write_px bl (interp (pixel s left) (mat_size left)
                \<lparr>width = cols left div 5, height = rows left div 5\<rparr>) (s\<lparr>fresh := Suc (fresh s)\<rparr>) \<and>
        s' = write_px br (interp (pixel s1 right) (mat_size right)
                \<lparr>width = cols left div 5, height = rows left div 5\<rparr>)
               (s1\<lparr>fresh := Suc (Suc (fresh s))\<rparr>))"
proof (cases "0 < rows left \<and> 0 < cols left")
  case False
  then show ?thesis
    by (auto simp: blurH_def Let_def then_do_Inr_iff resize_def size_empty_def mat_size_def)
next
  case True
  then have sd: "rows left sdiv BLUR_FACTOR = rows left div 5"
      "cols left sdiv BLUR_FACTOR = cols left div 5"
    by (simp_all add: BLUR_FACTOR_def sdiv_nonneg_eq)
  have "rows left div 5 < rows left" using True by (simp add: int_div_less_self)
  then have ne: "rows left div 5 \<noteq> rows left" by simp
  have pos: "0 < rows left div 5 \<longleftrightarrow> 5 \<le> rows left" "0 < cols left div 5 \<longleftrightarrow> 5 \<le> cols left"
    using True by (simp_all add: pos_imp_zdiv_pos_iff)
  show ?thesis
    unfolding blurH_def Let_def sd then_do_Inr_iff lift_eq_iff
    using True ne pos assms
    by (subst resize_new_Inr_iff, simp, subst resize_new_Inr_iff, simp) auto
qed

lemma blurV_Inr_iff:
  "blurV interp tp bottom s = (Inr (ov, bt, bb), s') \<longleftrightarrow>
     5 \<le> rows tp \<and> 5 \<le> cols tp \<and> 0 < rows bottom \<and> 0 < cols bottom \<and>
     ov = mat_size tp \<and>
     bt = \<lparr>rows = rows tp div 5, cols = cols tp div 5, mtype = mtype tp,
           buf = Suc (fresh s), row0 = 0, col0 = 0\<rparr> \<and>
     bb = \<lparr>rows = rows tp div 5, cols = cols tp div 5, mtype = mtype bottom,
           buf = Suc (Suc (fresh s)), row0 = 0, col0 = 0\<rparr> \<and>
     (\<exists>s1. s1 = write_px bt (interp (pixel s tp) (mat_size tp)
                \<lparr>width = cols tp div 5, height = rows tp div 5\<rparr>) (s\<lparr>fresh := Suc (fresh s)\<rparr>) \<and>
        s' = write_px bb (interp (pixel s1 bottom) (mat_size bottom)
                \<lparr>width = cols tp div 5, height = rows tp div 5\<rparr>)
               (s1\<lparr>fresh := Suc (Suc (fresh s))\<rparr>))"
proof (cases "0 < rows tp \<and> 0 < cols tp")
  case False
  then show ?thesis
    by (auto simp: blurV_def Let_def then_do_Inr_iff resize_def size_empty_def mat_size_def)
next
  case True
  then have sd: "rows tp sdiv BLUR_FACTOR = rows tp div 5"
      "cols tp sdiv BLUR_FACTOR = cols tp div 5"
    by (simp_all add: BLUR_FACTOR_def sdiv_nonneg_eq)
  have pos: "0 < rows tp div 5 \<longleftrightarrow> 5 \<le> rows tp" "0 < cols tp div 5 \<longleftrightarrow> 5 \<le> cols tp"
    using True by (simp_all add: pos_imp_zdiv_pos_iff)
  have e: "buf Mat_empty = 0" by (simp add: Mat_empty_def)
  show ?thesis
    unfolding blurV_def Let_def sd then_do_Inr_iff lift_eq_iff
    using True pos
    by (subst resize_new_Inr_iff, simp add: e, subst resize_new_Inr_iff, simp add: e) auto
qed

lemma optimizeImage_Inr_iff:
  "optimizeImage interp img angle vAngle s = (Inr opt, s') \<longleftrightarrow>
     (\<exists>l r cropped s1 middle left right s2 t b tp bottom.
        cropColumns img angle = Inr (l, r) \<and>
        cropping img l r s = (Inr cropped, s1) \<and>
        splitH img cropped = Inr (middle, left, right) \<and>
        blurH interp left right s1 = (Inr (origHSize opt, blurredLeft opt, blurredRight opt), s2) \<and>
        focusRows img vAngle = Inr (t, b) \<and>
        splitV middle t b = Inr (tp, focused opt, bottom) \<and>
        blurV interp tp bottom s2 = (Inr (origVSize opt, blurredTop opt, blurredBottom opt), s') \<and>
        fullSize opt = mat_size img \<and> leftBuffer opt = l)"
  by (cases opt) (auto simp: optimizeImage_def then_do_Inr_iff lift_eq_iff)

subsection \<open>The sizes of the panels\<close>

lemma frame_sel [simp]:
  "rows (frame w h) = h" "cols (frame w h) = w" "mtype (frame w h) = 16"
  "buf (frame w h) = 1" "row0 (frame w h) = 0" "col0 (frame w h) = 0"
  by (simp_all add: frame_def)

lemma store0_fresh [simp]: "fresh store0 = 1"
  by (simp add: store0_def)

text \<open>
  The views of a record that the encoder returns: the frame has rows, the three
  parts of the crop and the two strips of the middle part are views with rows and
  columns, and the focused panel is a view when the focus band has rows and is
  released when it has none.
\<close>

lemma optimizeImage_views:
  assumes enc: "optimizeImage interp img angle vAngle s = (Inr opt, s')"
  obtains l r cropped s1 fw middle left right s2 t b tp bottom where
    "cropColumns img angle = Inr (l, r)"
    "cropping img l r s = (Inr cropped, s1)"
    "0 < rows img" "rows cropped = rows img" "mtype cropped = mtype img"
    "cols cropped = (if l < r then r - l else cols img - l + r)"
    "l < r \<or> 0 < r"
    "d2i (dmul (of_int H_FOCUS_ANGLE) (angleToWidth img)) = Inr fw" "0 \<le> fw"
    "0 < cols cropped div 2 - fw div 2" "0 < fw div 2"
    "cols cropped div 2 + fw div 2 < cols cropped"
    "middle = cropped\<lparr>cols := cols cropped div 2 + fw div 2 - (cols cropped div 2 - fw div 2),
                       col0 := col0 cropped + (cols cropped div 2 - fw div 2)\<rparr>"
    "left = cropped\<lparr>cols := cols cropped div 2 - fw div 2 - 0, col0 := col0 cropped + 0\<rparr>"
    "right = cropped\<lparr>cols := cols cropped - (cols cropped div 2 + fw div 2),
                      col0 := col0 cropped + (cols cropped div 2 + fw div 2)\<rparr>"
    "blurH interp left right s1 = (Inr (origHSize opt, blurredLeft opt, blurredRight opt), s2)"
    "focusRows img vAngle = Inr (t, b)"
    "0 < t" "t \<le> b" "b < rows img"
    "tp = middle\<lparr>rows := t - 0, row0 := row0 middle + 0\<rparr>"
    "bottom = middle\<lparr>rows := rows middle - b, row0 := row0 middle + b\<rparr>"
    "focused opt = (if t < b then middle\<lparr>rows := b - t, row0 := row0 middle + t\<rparr>
                    else release middle)"
    "blurV interp tp bottom s2 = (Inr (origVSize opt, blurredTop opt, blurredBottom opt), s')"
    "fullSize opt = mat_size img" "leftBuffer opt = l"
proof -
  from enc obtain l r cropped s1 middle left right s2 t b tp bottom where
    cc: "cropColumns img angle = Inr (l, r)" and
    cr: "cropping img l r s = (Inr cropped, s1)" and
    sh: "splitH img cropped = Inr (middle, left, right)" and
    bh: "blurH interp left right s1 = (Inr (origHSize opt, blurredLeft opt, blurredRight opt), s2)" and
    fr: "focusRows img vAngle = Inr (t, b)" and
    sv: "splitV middle t b = Inr (tp, focused opt, bottom)" and
    bv: "blurV interp tp bottom s2 = (Inr (origVSize opt, blurredTop opt, blurredBottom opt), s')" and
    fs: "fullSize opt = mat_size img" "leftBuffer opt = l"
    unfolding optimizeImage_Inr_iff by blast
  have lw: "l < cols img" and w1: "0 \<le> cols img" using cc by (simp_all add: cropColumns_eq)
  define c where "c = cols cropped"
  from sh obtain fw where fw: "d2i (dmul (of_int H_FOCUS_ANGLE) (angleToWidth img)) = Inr fw"
    and h1: "0 \<le> c sdiv 2 - fw sdiv 2" "c sdiv 2 - fw sdiv 2 \<le> c sdiv 2 + fw sdiv 2"
      "c sdiv 2 + fw sdiv 2 < c"
    and m0: "middle = (if 0 < rows cropped \<and> c sdiv 2 - fw sdiv 2 < c sdiv 2 + fw sdiv 2
                  then cropped\<lparr>cols := c sdiv 2 + fw sdiv 2 - (c sdiv 2 - fw sdiv 2),
                                 col0 := col0 cropped + (c sdiv 2 - fw sdiv 2)\<rparr>
                  else release cropped)"
    and le0: "left = (if 0 < rows cropped \<and> 0 < c sdiv 2 - fw sdiv 2
                then cropped\<lparr>cols := c sdiv 2 - fw sdiv 2 - 0, col0 := col0 cropped + 0\<rparr>
                else release cropped)"
    and ri0: "right = (if 0 < rows cropped \<and> c sdiv 2 + fw sdiv 2 < c
                 then cropped\<lparr>cols := c - (c sdiv 2 + fw sdiv 2),
                                col0 := col0 cropped + (c sdiv 2 + fw sdiv 2)\<rparr>
                 else release cropped)"
    unfolding splitH_Inr_iff c_def by blast
  have "0 \<le> dmul (of_int H_FOCUS_ANGLE) (ddiv (of_int (cols img)) 360)"
    using w1 by (intro dmul_ddiv_nonneg) (simp_all add: H_FOCUS_ANGLE_def)
  then have fw0: "0 \<le> fw"
    using fw by (auto simp: d2i_def trunc_def angleToWidth_def)
  then have fwd: "fw sdiv 2 = fw div 2" by (simp add: sdiv_nonneg_eq)
  have c0: "0 < c" using h1 by linarith
  then have cd: "c sdiv 2 = c div 2" by (simp add: sdiv_nonneg_eq)
  note h1 = h1[unfolded fwd cd] and m0 = m0[unfolded fwd cd] and le0 = le0[unfolded fwd cd]
    and ri0 = ri0[unfolded fwd cd]
  have h0: "0 < rows img"
  proof (rule ccontr)
    assume "\<not> 0 < rows img"
    then have "cols cropped = 0" by (intro cropping_empty[OF cr]) simp
    then show False using c0 by (simp add: c_def)
  qed
  note crs = cropping_size[OF cr h0 lw]
  have lr0: "l < r \<or> 0 < r" using crs(4) by blast
  have rc: "0 < rows cropped" using crs(2) h0 by simp
  have ri: "right = cropped\<lparr>cols := c - (c div 2 + fw div 2),
                                col0 := col0 cropped + (c div 2 + fw div 2)\<rparr>"
    using ri0 rc h1(3) by simp
  have rr: "0 < rows left \<longrightarrow> rows right = rows left"
    using le0 ri by (simp split: if_splits)
  have "5 \<le> rows left" using bh unfolding blurH_Inr_iff[OF rr] by simp
  then have fl0: "0 < c div 2 - fw div 2" using le0 by (simp split: if_splits)
  then have le: "left = cropped\<lparr>cols := c div 2 - fw div 2 - 0, col0 := col0 cropped + 0\<rparr>"
    using le0 rc by simp
  from sv have sv': "0 \<le> t" "t \<le> b" "b \<le> rows middle"
      "tp = (if 0 < cols middle \<and> 0 < t
           then middle\<lparr>rows := t - 0, row0 := row0 middle + 0\<rparr> else release middle)"
      "focused opt = (if 0 < cols middle \<and> t < b
            then middle\<lparr>rows := b - t, row0 := row0 middle + t\<rparr> else release middle)"
      "bottom = (if 0 < cols middle \<and> b < rows middle
               then middle\<lparr>rows := rows middle - b, row0 := row0 middle + b\<rparr>
               else release middle)"
    unfolding splitV_Inr_iff by simp_all
  from bv have bv': "5 \<le> rows tp" "0 < rows bottom"
    unfolding blurV_Inr_iff by simp_all
  have tpos: "0 < cols middle" "0 < t" using bv'(1) sv'(4) by (simp_all split: if_splits)
  have bpos: "b < rows middle" using bv'(2) sv'(6) by (simp split: if_splits)
  have mid: "c div 2 - fw div 2 < c div 2 + fw div 2"
    using tpos(1) m0 by (simp split: if_splits)
  then have f2: "0 < fw div 2" by simp
  have m: "middle = cropped\<lparr>cols := c div 2 + fw div 2 - (c div 2 - fw div 2),
                       col0 := col0 cropped + (c div 2 - fw div 2)\<rparr>"
    using m0 mid rc by simp
  have rm: "rows middle = rows img" using m crs(2) by simp
  have tp: "tp = middle\<lparr>rows := t - 0, row0 := row0 middle + 0\<rparr>"
    and bo: "bottom = middle\<lparr>rows := rows middle - b, row0 := row0 middle + b\<rparr>"
    and fo: "focused opt = (if t < b then middle\<lparr>rows := b - t, row0 := row0 middle + t\<rparr>
                    else release middle)"
    using sv'(4,5,6) tpos bpos by simp_all
  show ?thesis
    using that[OF cc cr h0 crs(2,3,1) lr0 fw fw0 fl0[unfolded c_def] f2 h1(3)[unfolded c_def]
        m[unfolded c_def] le[unfolded c_def] ri[unfolded c_def] bh fr tpos(2) sv'(2)
        bpos[unfolded rm] tp bo fo bv fs] .
qed

text \<open>The sizes and types of the panels of a record that the encoder returns.\<close>

lemma optimizeImage_geometry:
  assumes "optimizeImage interp img angle vAngle s = (Inr opt, s')"
  obtains l r c fw t b where
    "cropColumns img angle = Inr (l, r)"
    "c = (if l < r then r - l else cols img - l + r)"
    "l < r \<or> 0 < r"
    "d2i (dmul (of_int H_FOCUS_ANGLE) (angleToWidth img)) = Inr fw"
    "focusRows img vAngle = Inr (t, b)"
    "0 \<le> c div 2 - fw div 2" "c div 2 + fw div 2 < c" "0 \<le> fw"
    "5 \<le> rows img" "5 \<le> c div 2 - fw div 2" "5 \<le> 2 * (fw div 2)"
    "5 \<le> t" "t \<le> b" "b < rows img"
    "mat_size (focused opt) =
       (if t < b then \<lparr>width = 2 * (fw div 2), height = b - t\<rparr> else \<lparr>width = 0, height = 0\<rparr>)"
    "mat_size (blurredLeft opt) = \<lparr>width = (c div 2 - fw div 2) div 5, height = rows img div 5\<rparr>"
    "mat_size (blurredRight opt) = \<lparr>width = (c div 2 - fw div 2) div 5, height = rows img div 5\<rparr>"
    "mat_size (blurredTop opt) = \<lparr>width = (2 * (fw div 2)) div 5, height = t div 5\<rparr>"
    "mat_size (blurredBottom opt) = \<lparr>width = (2 * (fw div 2)) div 5, height = t div 5\<rparr>"
    "origHSize opt = \<lparr>width = c div 2 - fw div 2, height = rows img\<rparr>"
    "origVSize opt = \<lparr>width = 2 * (fw div 2), height = t\<rparr>"
    "fullSize opt = mat_size img" "leftBuffer opt = l"
    "mtype (focused opt) = mtype img" "mtype (blurredLeft opt) = mtype img"
    "mtype (blurredRight opt) = mtype img" "mtype (blurredTop opt) = mtype img"
    "mtype (blurredBottom opt) = mtype img"
    "buf (focused opt) = (if t < b then buf (focused opt) else 0)"
proof -
  from assms obtain l r cropped s1 fw middle left right s2 t b tp bottom where
    cc: "cropColumns img angle = Inr (l, r)" and
    crs: "rows cropped = rows img" "mtype cropped = mtype img"
      "cols cropped = (if l < r then r - l else cols img - l + r)" and
    lr0: "l < r \<or> 0 < r" and
    fw: "d2i (dmul (of_int H_FOCUS_ANGLE) (angleToWidth img)) = Inr fw" "0 \<le> fw" and
    h1: "0 < cols cropped div 2 - fw div 2" "0 < fw div 2"
      "cols cropped div 2 + fw div 2 < cols cropped" and
    m: "middle = cropped\<lparr>cols := cols cropped div 2 + fw div 2 - (cols cropped div 2 - fw div 2),
                       col0 := col0 cropped + (cols cropped div 2 - fw div 2)\<rparr>" and
    le: "left = cropped\<lparr>cols := cols cropped div 2 - fw div 2 - 0, col0 := col0 cropped + 0\<rparr>" and
    ri: "right = cropped\<lparr>cols := cols cropped - (cols cropped div 2 + fw div 2),
                      col0 := col0 cropped + (cols cropped div 2 + fw div 2)\<rparr>" and
    bh: "blurH interp left right s1 = (Inr (origHSize opt, blurredLeft opt, blurredRight opt), s2)" and
    fr: "focusRows img vAngle = Inr (t, b)" and
    tb: "0 < t" "t \<le> b" "b < rows img" and
    tp: "tp = middle\<lparr>rows := t - 0, row0 := row0 middle + 0\<rparr>" and
    bo: "bottom = middle\<lparr>rows := rows middle - b, row0 := row0 middle + b\<rparr>" and
    fo: "focused opt = (if t < b then middle\<lparr>rows := b - t, row0 := row0 middle + t\<rparr>
                    else release middle)" and
    bv: "blurV interp tp bottom s2 = (Inr (origVSize opt, blurredTop opt, blurredBottom opt), s')" and
    fs: "fullSize opt = mat_size img" "leftBuffer opt = l"
    by (rule optimizeImage_views)
  define c where "c = (if l < r then r - l else cols img - l + r)"
  have cc': "cols cropped = c" using crs(3) by (simp add: c_def)
  note h1 = h1[unfolded cc'] and m = m[unfolded cc'] and le = le[unfolded cc']
    and ri = ri[unfolded cc']
  have rr: "0 < rows left \<longrightarrow> rows right = rows left" by (simp add: le ri)
  from bh have bh': "5 \<le> rows img" "5 \<le> c div 2 - fw div 2"
      "origHSize opt = \<lparr>width = c div 2 - fw div 2, height = rows img\<rparr>"
      "mat_size (blurredLeft opt) = \<lparr>width = (c div 2 - fw div 2) div 5, height = rows img div 5\<rparr>"
      "mat_size (blurredRight opt) = \<lparr>width = (c div 2 - fw div 2) div 5, height = rows img div 5\<rparr>"
      "mtype (blurredLeft opt) = mtype img" "mtype (blurredRight opt) = mtype img"
    unfolding blurH_Inr_iff[OF rr] by (simp_all add: le ri crs mat_size_def)
  from bv have bv': "5 \<le> t" "5 \<le> 2 * (fw div 2)"
      "origVSize opt = \<lparr>width = 2 * (fw div 2), height = t\<rparr>"
      "mat_size (blurredTop opt) = \<lparr>width = (2 * (fw div 2)) div 5, height = t div 5\<rparr>"
      "mat_size (blurredBottom opt) = \<lparr>width = (2 * (fw div 2)) div 5, height = t div 5\<rparr>"
      "mtype (blurredTop opt) = mtype img" "mtype (blurredBottom opt) = mtype img"
    unfolding blurV_Inr_iff by (simp_all add: tp bo m crs mat_size_def)
  have fo': "mat_size (focused opt) =
       (if t < b then \<lparr>width = 2 * (fw div 2), height = b - t\<rparr> else \<lparr>width = 0, height = 0\<rparr>)"
      "mtype (focused opt) = mtype img"
      "buf (focused opt) = (if t < b then buf (focused opt) else 0)"
    by (simp_all add: fo m crs mat_size_def)
  have g: "0 \<le> c div 2 - fw div 2" using h1(1) by simp
  show ?thesis
    using that[OF cc c_def lr0 fw(1) fr g h1(3) fw(2) bh'(1,2) bv'(2,1) tb(2,3) fo'(1) bh'(4,5)
        bv'(4,5) bh'(3) bv'(3) fs fo'(2) bh'(6,7) bv'(6,7) fo'(3)] .
qed

text \<open>
  At azimuth 300 the right edge of the window is at 360 degrees, which is 0: the
  part of the crop after the seam is the released view of the column range
  \<open>[0, 0)\<close>, \<^verbatim>\<open>hconcat\<close> rejects it, and the encoder returns no record.
\<close>

lemma encoder_throws_at_azimuth_300:
  "optimizeImage interp img 300 vAngle s \<noteq> (Inr opt, s')"
proof
  assume "optimizeImage interp img 300 vAngle s = (Inr opt, s')"
  then obtain l r where cc: "cropColumns img 300 = Inr (l, r)" and lr: "l < r \<or> 0 < r"
    by (rule optimizeImage_views)
  from cc have "d2i (dmul (of_int 0) (angleToWidth img)) = Inr r" "0 \<le> l"
    by (simp_all add: cropColumns_eq)
  then have "r = 0" "0 \<le> l" by (simp_all add: d2i_0)
  then show False using lr by simp
qed

lemma crop_at_azimuth_300:
  "cropColumns (frame 360 180) 300 = Inr (240, 0)"
  "cropping (frame 360 180) 240 0 store0 = (Inl CvException, store0)"
proof -
  show "cropColumns (frame 360 180) 300 = Inr (240, 0)" by code_simp
  show "cropping (frame 360 180) 240 0 store0 = (Inl CvException, store0)"
    by (simp add: cropping_def then_do_def lift_def Mat_view_def rowRange_of_def
        colRange_of_def and_then_def hconcat_def release_def frame_def)
qed

lemma mat_size_eq_iff:
  "mat_size m = \<lparr>width = a, height = b\<rparr> \<longleftrightarrow> cols m = a \<and> rows m = b"
  by (auto simp: mat_size_def)

lemma div5_product:
  fixes x y :: int
  assumes "0 \<le> x" "0 \<le> y"
  shows "0 \<le> (x div 5) * (y div 5)" "25 * ((x div 5) * (y div 5)) \<le> x * y"
proof -
  have x: "0 \<le> x div 5" "5 * (x div 5) \<le> x" using assms by simp_all
  have y: "0 \<le> y div 5" "5 * (y div 5) \<le> y" using assms by simp_all
  show "0 \<le> (x div 5) * (y div 5)" using x y by simp
  have "(5 * (x div 5)) * (5 * (y div 5)) \<le> x * y"
    using x y by (intro mult_mono) auto
  then show "25 * ((x div 5) * (y div 5)) \<le> x * y" by (simp add: algebra_simps)
qed

lemma focusRows_Inr_iff:
  "focusRows img vAngle = Inr (t, b) \<longleftrightarrow>
     (\<exists>fh fm. d2i (dmul (of_int V_FOCUS_ANGLE) (angleToHeight img)) = Inr fh \<and>
        d2i (dmul (of_int vAngle) (angleToHeight img)) = Inr fm \<and>
        t = fm - fh sdiv 2 \<and> b = fm + fh sdiv 2 \<and>
        - (2 ^ 31) \<le> t \<and> t < 2 ^ 31 \<and> - (2 ^ 31) \<le> b \<and> b < 2 ^ 31)"
  by (auto simp: focusRows_def)

lemma focusHeight_small:
  assumes "0 \<le> rows img" "rows img < 18"
  shows "\<exists>k. d2i (dmul (of_int V_FOCUS_ANGLE) (angleToHeight img)) = Inr k \<and> 0 \<le> k \<and> k \<le> 1"
proof -
  obtain k where k: "d2i (dmul (of_int 20) (ddiv (of_int (rows img)) (of_int 180))) = Inr k"
      "0 \<le> k" "180 * k \<le> 20 * rows img"
    using scaled_bounds[of 20 180 "rows img"] assms by auto
  have "k \<le> 1" using k assms by linarith
  then show ?thesis using k by (simp add: angleToHeight_def V_FOCUS_ANGLE_def)
qed

text \<open>The right strip is as wide as the left one, or one column wider.\<close>

lemma strip_widths:
  assumes "splitH img cropped = Inr (middle, left, right)" "0 \<le> cols cropped"
    and "0 < cols left"
  shows "cols right = cols left + cols cropped mod 2"
proof -
  have cd: "cols cropped sdiv 2 = cols cropped div 2" using assms(2) by (simp add: sdiv_nonneg_eq)
  from assms(1) obtain fw where
    le: "left = (if 0 < rows cropped \<and> 0 < cols cropped sdiv 2 - fw sdiv 2
                then cropped\<lparr>cols := cols cropped sdiv 2 - fw sdiv 2 - 0, col0 := col0 cropped + 0\<rparr>
                else release cropped)"
    and ri: "right = (if 0 < rows cropped \<and> cols cropped sdiv 2 + fw sdiv 2 < cols cropped
                 then cropped\<lparr>cols := cols cropped - (cols cropped sdiv 2 + fw sdiv 2),
                                col0 := col0 cropped + (cols cropped sdiv 2 + fw sdiv 2)\<rparr>
                 else release cropped)"
    and fr: "cols cropped sdiv 2 + fw sdiv 2 < cols cropped"
    unfolding splitH_Inr_iff by blast
  have "0 < rows cropped \<and> 0 < cols cropped sdiv 2 - fw sdiv 2"
    using assms(3) le by (simp split: if_splits)
  then show ?thesis using le ri fr cd by simp
qed



subsection \<open>The encoder on the test frames\<close>

lemma sdiv2_numeral [simp]: "(numeral n :: int) sdiv 2 = numeral n div 2"
  by (simp add: sdiv_nonneg_eq)

lemma numbers_360_180:
  "cropColumns (frame 360 180) 180 = Inr (120, 240)"
  "d2i (dmul (of_int H_FOCUS_ANGLE) (angleToWidth (frame 360 180))) = Inr 20"
  "focusRows (frame 360 180) 90 = Inr (80, 100)"
  "focusRows (frame 360 180) 60 = Inr (50, 70)"
  by code_simp+

lemma numbers_363_180:
  "cropColumns (frame 363 180) 180 = Inr (121, 242)"
  "d2i (dmul (of_int H_FOCUS_ANGLE) (angleToWidth (frame 363 180))) = Inr 20"
  "focusRows (frame 363 180) 90 = Inr (80, 100)"
  by code_simp+

lemma numbers_360_17:
  "cropColumns (frame 360 17) 180 = Inr (120, 240)"
  "d2i (dmul (of_int H_FOCUS_ANGLE) (angleToWidth (frame 360 17))) = Inr 20"
  "focusRows (frame 360 17) 90 = Inr (8, 8)"
  by code_simp+

lemmas encode_simps =
  optimizeImage_Inr_iff cropping_def lift_eq_iff Mat_view_cols_Inr_iff splitH_Inr_iff
  splitV_Inr_iff blurV_Inr_iff blurH_Inr_iff

lemma encode_360_180_90:
  "\<exists>s'. optimizeImage flat (frame 360 180) 180 90 store0 = (Inr encoded_90, s')"
  unfolding encoded_90_def
  by (simp add: encode_simps numbers_360_180 mat_size_def; simp add: frame_def)

lemma encode_360_180_60:
  "\<exists>s'. optimizeImage flat (frame 360 180) 180 60 store0 = (Inr encoded_60, s')"
  unfolding encoded_60_def
  by (simp add: encode_simps numbers_360_180 mat_size_def; simp add: frame_def)

lemma encode_360_17_90:
  "\<exists>s'. optimizeImage flat (frame 360 17) 180 90 store0 = (Inr encoded_17, s')"
  unfolding encoded_17_def
  by (simp add: encode_simps numbers_360_17 mat_size_def; simp add: frame_def)

lemma split_363:
  "splitH (frame 363 180) \<lparr>rows = 180, cols = 121, mtype = 16, buf = 1, row0 = 0, col0 = 121\<rparr> =
     Inr (\<lparr>rows = 180, cols = 20, mtype = 16, buf = 1, row0 = 0, col0 = 171\<rparr>,
          \<lparr>rows = 180, cols = 50, mtype = 16, buf = 1, row0 = 0, col0 = 121\<rparr>,
          \<lparr>rows = 180, cols = 51, mtype = 16, buf = 1, row0 = 0, col0 = 191\<rparr>)"
  by (subst splitH_Inr_iff) (simp add: numbers_363_180)

lemma crop_363:
  "cropping (frame 363 180) 121 242 store0 =
     (Inr \<lparr>rows = 180, cols = 121, mtype = 16, buf = 1, row0 = 0, col0 = 121\<rparr>, store0)"
  by (simp add: cropping_def lift_def Mat_view_cols_Inr frame_def)

lemma encode_363_180_90:
  "\<exists>opt s'. optimizeImage flat (frame 363 180) 180 90 store0 = (Inr opt, s') \<and>
     origHSize opt = \<lparr>width = 50, height = 180\<rparr>"
proof -
  have "\<exists>s'. optimizeImage flat (frame 363 180) 180 90 store0 =
     (Inr \<lparr>focused = \<lparr>rows = 20, cols = 20, mtype = 16, buf = 1, row0 = 80, col0 = 171\<rparr>,
           blurredLeft = \<lparr>rows = 36, cols = 10, mtype = 16, buf = 2, row0 = 0, col0 = 0\<rparr>,
           blurredRight = \<lparr>rows = 36, cols = 10, mtype = 16, buf = 3, row0 = 0, col0 = 0\<rparr>,
           blurredTop = \<lparr>rows = 16, cols = 4, mtype = 16, buf = 4, row0 = 0, col0 = 0\<rparr>,
           blurredBottom = \<lparr>rows = 16, cols = 4, mtype = 16, buf = 5, row0 = 0, col0 = 0\<rparr>,
           origHSize = \<lparr>width = 50, height = 180\<rparr>,
           origVSize = \<lparr>width = 20, height = 80\<rparr>,
           fullSize = \<lparr>width = 363, height = 180\<rparr>,
           leftBuffer = 121\<rparr>, s')"
    by (simp add: encode_simps numbers_363_180 mat_size_def; simp add: frame_def)
  then show ?thesis by force
qed

subsection \<open>The focus band at the poles\<close>

text \<open>
  C4. The claim: there is an elevation near a pole for which the rows
  \<open>(focusTopRow, focusBottomRow)\<close> fall outside \<open>[0, middle.rows]\<close>, and they are
  neither clamped nor rejected before they index the rows. For every frame of at
  least 18 rows the elevation 0 gives a negative \<open>focusTopRow\<close>; the rows go to the
  row ranges as they are, where OpenCV throws, and the encoder returns no record.
\<close>

theorem focus_band_leaves_rows_at_pole:
  assumes "18 \<le> rows img" "rows img < 2 ^ 31"
  shows "\<exists>vAngle t b.
           focusRows img vAngle = Inr (t, b) \<and>
           \<not> (0 \<le> t \<and> b \<le> rows middle) \<and>
           splitV middle t b = Inl CvException \<and>
           (\<forall>opt s'. optimizeImage interp img angle vAngle s \<noteq> (Inr opt, s'))"
proof -
  obtain k where k: "d2i (dmul (of_int V_FOCUS_ANGLE) (angleToHeight img)) = Inr k"
      "2 \<le> k" "k \<le> rows img"
    using focusHeight_bounds[OF assms] by blast
  have half: "1 \<le> k sdiv 2" "k sdiv 2 \<le> k"
    using k by (simp_all add: sdiv_nonneg_eq)
  have fr: "focusRows img 0 = Inr (0 - k sdiv 2, 0 + k sdiv 2)"
    using k half assms by (simp add: focusRows_def d2i_0)
  moreover have "splitV middle (0 - k sdiv 2) (0 + k sdiv 2) = Inl CvException"
    using half by (simp add: splitV_def Mat_view_def rowRange_of_def and_then_def)
  moreover have "\<not> (0 \<le> 0 - k sdiv 2 \<and> 0 + k sdiv 2 \<le> rows middle)"
    using half by simp
  moreover have "\<forall>opt s'. optimizeImage interp img angle 0 s \<noteq> (Inr opt, s')"
  proof (intro allI notI)
    fix opt s'
    assume "optimizeImage interp img angle 0 s = (Inr opt, s')"
    then obtain t b where "focusRows img 0 = Inr (t, b)" "5 \<le> t"
      by (rule optimizeImage_geometry)
    then show False using fr half by simp
  qed
  ultimately show ?thesis by blast
qed

lemma optimizeImage_throws_in_splitV:
  assumes "cropColumns img angle = Inr (l, r)"
    and "cropping img l r s = (Inr cropped, s1)"
    and "splitH img cropped = Inr (middle, left, right)"
    and "blurH interp left right s1 = (Inr hb, s2)"
    and "focusRows img vAngle = Inr (t, b)"
    and "splitV middle t b = Inl e"
  shows "optimizeImage interp img angle vAngle s = (Inl e, s2)"
  using assms by (simp add: optimizeImage_def then_do_def lift_def split: prod.splits)

lemma numbers_pole: "focusRows (frame 360 180) 0 = Inr (- 10, 10)"
  by code_simp

lemma encode_at_pole_throws:
  "\<exists>s'. optimizeImage flat (frame 360 180) 180 0 store0 = (Inl CvException, s')"
proof -
  define cropped where "cropped = \<lparr>rows = 180, cols = 120, mtype = 16, buf = 1, row0 = 0, col0 = 120\<rparr>"
  define middle where "middle = \<lparr>rows = 180, cols = 20, mtype = 16, buf = 1, row0 = 0, col0 = 170\<rparr>"
  define left where "left = \<lparr>rows = 180, cols = 50, mtype = 16, buf = 1, row0 = 0, col0 = 120\<rparr>"
  define right where "right = \<lparr>rows = 180, cols = 50, mtype = 16, buf = 1, row0 = 0, col0 = 190\<rparr>"
  have cr: "cropping (frame 360 180) 120 240 store0 = (Inr cropped, store0)"
    by (simp add: cropping_def lift_def Mat_view_cols_Inr frame_def cropped_def)
  have sh: "splitH (frame 360 180) cropped = Inr (middle, left, right)"
    by (subst splitH_Inr_iff) (simp add: numbers_360_180 cropped_def middle_def left_def right_def)
  have "\<exists>oh bl br s2. blurH flat left right store0 = (Inr (oh, bl, br), s2)"
    by (simp add: blurH_Inr_iff left_def right_def)
  then obtain hb s2 where bh: "blurH flat left right store0 = (Inr hb, s2)"
    by blast
  have sv: "splitV middle (- 10) 10 = Inl CvException"
    by (simp add: splitV_def Mat_view_def rowRange_of_def and_then_def)
  show ?thesis
    using optimizeImage_throws_in_splitV[OF numbers_360_180(1) cr sh bh numbers_pole sv] by blast
qed


theorem focus_band_leaves_rows_at_pole_witness:
  "18 \<le> rows (frame 360 180) \<and> rows (frame 360 180) < 2 ^ 31 \<and>
   (\<exists>vAngle t b.
      focusRows (frame 360 180) vAngle = Inr (t, b) \<and>
      \<not> (0 \<le> t \<and> b \<le> rows (frame 360 180)) \<and>
      splitV (frame 360 180) t b = Inl CvException \<and>
      (\<forall>opt s'. optimizeImage flat (frame 360 180) 180 vAngle store0 \<noteq> (Inr opt, s'))) \<and>
   focusRows (frame 360 180) 0 = Inr (- 10, 10) \<and>
   (\<exists>s'. optimizeImage flat (frame 360 180) 180 0 store0 = (Inl CvException, s'))"
proof -
  have h: "18 \<le> rows (frame 360 180)" "rows (frame 360 180) < 2 ^ 31"
    by simp_all
  show ?thesis
    using h numbers_pole encode_at_pole_throws
      focus_band_leaves_rows_at_pole[OF h, of "frame 360 180" flat 180 store0]
    by simp
qed

subsection \<open>The source frame\<close>

text \<open>
  C10. The claim: \<^verbatim>\<open>optimizeImage\<close> never modifies its input image buffer; after
  every call the pixels of the source frame are what they were before it. The
  crops are views, and every write goes to a buffer that the call allocates: the
  two \<^verbatim>\<open>resize\<close> calls on views of the frame find a destination of another size and
  allocate. This holds whether the call returns a record or fails.
\<close>

theorem source_frame_not_modified:
  assumes "optimizeImage interp img angle vAngle s = (res, s')"
    and "buf img \<le> fresh s"
  shows "mem s' (buf img) = mem s (buf img) \<and> (\<forall>r c. pixel s' img r c = pixel s img r c)"
  using optimizeImage_unchanged[OF assms(1)] assms(2)
  by (auto simp: unchanged_def pixel_def)

theorem source_frame_not_modified_witness:
  "\<exists>s'. optimizeImage flat (frame 360 180) 180 90 store0 = (Inr encoded_90, s') \<and>
     buf (frame 360 180) \<le> fresh store0 \<and>
     mem s' (buf (frame 360 180)) = mem store0 (buf (frame 360 180)) \<and>
     (\<forall>r c. pixel s' (frame 360 180) r c = 1000 * r + c + 1)"
proof -
  obtain s' where enc: "optimizeImage flat (frame 360 180) 180 90 store0 = (Inr encoded_90, s')"
    using encode_360_180_90 by blast
  have a: "buf (frame 360 180) \<le> fresh store0" by simp
  have "pixel store0 (frame 360 180) r c = 1000 * r + c + 1" for r c
    by (simp add: pixel_def store0_def)
  then show ?thesis
    using source_frame_not_modified[OF enc a] enc a by auto
qed

subsection \<open>Compression\<close>

text \<open>
  C6. The claim: for every valid image and angles the total byte size of the five
  panels, as \<^verbatim>\<open>OptimizedImage::size\<close> reports it, is strictly less than the byte size
  of the source frame (the shrink factor is 5). Here \<open>esz\<close> gives the bytes of one
  pixel of an element type, and a pixel of the frame takes at least one byte.
\<close>

theorem panels_smaller_than_frame:
  assumes enc: "optimizeImage interp img angle vAngle s = (Inr opt, s')"
    and esz: "0 < esz (mtype img)"
  shows "OptimizedImage_size esz opt < imageSize esz img"
proof -
  from enc obtain l r c fw t b where
    cc: "cropColumns img angle = Inr (l, r)" and
    c: "c = (if l < r then r - l else cols img - l + r)" and
    g: "0 \<le> c div 2 - fw div 2" "c div 2 + fw div 2 < c" "0 \<le> fw"
      "5 \<le> rows img" "5 \<le> c div 2 - fw div 2" "5 \<le> 2 * (fw div 2)"
      "5 \<le> t" "t \<le> b" "b < rows img" and
    sz: "mat_size (focused opt) =
       (if t < b then \<lparr>width = 2 * (fw div 2), height = b - t\<rparr> else \<lparr>width = 0, height = 0\<rparr>)"
      "mat_size (blurredLeft opt) = \<lparr>width = (c div 2 - fw div 2) div 5, height = rows img div 5\<rparr>"
      "mat_size (blurredRight opt) = \<lparr>width = (c div 2 - fw div 2) div 5, height = rows img div 5\<rparr>"
      "mat_size (blurredTop opt) = \<lparr>width = (2 * (fw div 2)) div 5, height = t div 5\<rparr>"
      "mat_size (blurredBottom opt) = \<lparr>width = (2 * (fw div 2)) div 5, height = t div 5\<rparr>" and
    ty: "mtype (focused opt) = mtype img" "mtype (blurredLeft opt) = mtype img"
      "mtype (blurredRight opt) = mtype img" "mtype (blurredTop opt) = mtype img"
      "mtype (blurredBottom opt) = mtype img"
    by (rule optimizeImage_geometry)
  define h where "h = rows img"
  define w where "w = cols img"
  define a where "a = c div 2 - fw div 2"
  define m where "m = 2 * (fw div 2)"
  define X where "X = (h div 5) * (a div 5)"
  define Y where "Y = (t div 5) * (m div 5)"
  define F where "F = rows (focused opt) * cols (focused opt)"
  have lr: "0 \<le> l" "l < w" "0 \<le> r" "r < w"
    using cc by (simp_all add: cropColumns_eq w_def)
  have cw: "c \<le> w" using lr by (auto simp: c w_def[symmetric])
  have am: "a + m < c" using g(2) by (simp add: a_def m_def)
  have pos: "5 \<le> h" "5 \<le> a" "5 \<le> m" "5 \<le> t" "t \<le> b" "b < h"
    using g by (simp_all add: h_def a_def m_def)
  have X: "0 \<le> X" "25 * X \<le> h * a"
    unfolding X_def using pos by (intro div5_product; simp)+
  have Y: "0 \<le> Y" "25 * Y \<le> t * m"
    unfolding Y_def using pos by (intro div5_product; simp)+
  have ha: "0 < h * a" using pos by simp
  have tm: "0 \<le> t * m" using pos by simp
  have F: "0 \<le> F" "F \<le> (b - t) * m"
    using sz(1) pos unfolding F_def m_def by (auto simp: mat_size_def split: if_splits)
  have "(b - t) * m + t * m = b * m" by (simp add: algebra_simps)
  moreover have "b * m \<le> h * m" using pos by (intro mult_right_mono) auto
  moreover have "h * a + h * m = h * (a + m)" by (simp add: algebra_simps)
  moreover have "h * (a + m) \<le> h * (w - 1)"
    using am cw pos by (intro mult_left_mono) auto
  moreover have "h * (w - 1) = h * w - h" by (simp add: algebra_simps)
  ultimately have main: "F + 2 * X + 2 * Y < h * w"
    using X Y F ha tm pos(1) by linarith
  have dims:
      "rows (blurredLeft opt) = h div 5" "cols (blurredLeft opt) = a div 5"
      "rows (blurredRight opt) = h div 5" "cols (blurredRight opt) = a div 5"
      "rows (blurredTop opt) = t div 5" "cols (blurredTop opt) = m div 5"
      "rows (blurredBottom opt) = t div 5" "cols (blurredBottom opt) = m div 5"
    using sz unfolding mat_size_eq_iff h_def a_def m_def by simp_all
  have "OptimizedImage_size esz opt =
      nat F * esz (mtype img) + nat X * esz (mtype img) + nat X * esz (mtype img) +
      nat Y * esz (mtype img) + nat Y * esz (mtype img)"
    unfolding OptimizedImage_size_def imageSize_def dims ty X_def Y_def F_def ..
  then have "OptimizedImage_size esz opt =
      (nat F + nat X + nat X + nat Y + nat Y) * esz (mtype img)"
    by (simp add: algebra_simps)
  moreover have "imageSize esz img = nat (h * w) * esz (mtype img)"
    by (simp add: imageSize_def h_def w_def)
  moreover have "nat F + nat X + nat X + nat Y + nat Y < nat (h * w)"
    using main X(1) Y(1) F(1) by linarith
  ultimately show ?thesis using esz by simp
qed


theorem panels_smaller_than_frame_witness:
  "\<exists>s'. optimizeImage flat (frame 360 180) 180 90 store0 = (Inr encoded_90, s') \<and>
     0 < (\<lambda>t. 3 :: nat) (mtype (frame 360 180)) \<and>
     OptimizedImage_size (\<lambda>t. 3) encoded_90 = 3744 \<and>
     imageSize (\<lambda>t. 3) (frame 360 180) = 194400 \<and>
     OptimizedImage_size (\<lambda>t. 3) encoded_90 < imageSize (\<lambda>t. 3) (frame 360 180)"
proof -
  obtain s' where enc: "optimizeImage flat (frame 360 180) 180 90 store0 = (Inr encoded_90, s')"
    using encode_360_180_90 by blast
  have e: "0 < (\<lambda>t. 3 :: nat) (mtype (frame 360 180))" by simp
  have "OptimizedImage_size (\<lambda>t. 3) encoded_90 = 3744"
    by (simp add: OptimizedImage_size_def imageSize_def encoded_90_def)
  moreover have "imageSize (\<lambda>t. 3) (frame 360 180) = 194400"
    by (simp add: imageSize_def)
  ultimately show ?thesis
    using panels_smaller_than_frame[OF enc, of "\<lambda>t. 3"] enc by auto
qed

subsection \<open>The invariants of the record\<close>

text \<open>
  C8. The claim: every record that \<^verbatim>\<open>optimizeImage\<close> constructs has five non-empty
  panels, strictly positive components of \<open>origHSize\<close> and \<open>origVSize\<close>, and
  \<open>0 \<le> leftBuffer < fullSize.width\<close>. What holds: the four blurred panels are not
  empty, the components of both sizes are positive and \<open>0 \<le> leftBuffer < fullSize.width\<close>;
  the focused panel has at least five columns and two rows when the frame has 18
  rows or more, and is the empty matrix, of size 0 by 0 and without data, when the
  frame has fewer.
\<close>

theorem encoded_record_invariants:
  assumes enc: "optimizeImage interp img angle vAngle s = (Inr opt, s')"
    and h31: "rows img < 2 ^ 31"
  shows "\<not> size_empty (mat_size (blurredLeft opt)) \<and>
         \<not> size_empty (mat_size (blurredRight opt)) \<and>
         \<not> size_empty (mat_size (blurredTop opt)) \<and>
         \<not> size_empty (mat_size (blurredBottom opt)) \<and>
         0 < width (origHSize opt) \<and> 0 < height (origHSize opt) \<and>
         0 < width (origVSize opt) \<and> 0 < height (origVSize opt) \<and>
         0 \<le> leftBuffer opt \<and> leftBuffer opt < width (fullSize opt) \<and>
         (if 18 \<le> rows img
          then 5 \<le> cols (focused opt) \<and> 2 \<le> rows (focused opt)
          else cols (focused opt) = 0 \<and> rows (focused opt) = 0 \<and> buf (focused opt) = 0)"
proof -
  from enc obtain l r c fw t b where
    cc: "cropColumns img angle = Inr (l, r)" and
    fr: "focusRows img vAngle = Inr (t, b)" and
    g: "5 \<le> rows img" "5 \<le> c div 2 - fw div 2" "5 \<le> 2 * (fw div 2)"
      "5 \<le> t" "t \<le> b" "b < rows img" and
    sz: "mat_size (focused opt) =
       (if t < b then \<lparr>width = 2 * (fw div 2), height = b - t\<rparr> else \<lparr>width = 0, height = 0\<rparr>)"
      "mat_size (blurredLeft opt) = \<lparr>width = (c div 2 - fw div 2) div 5, height = rows img div 5\<rparr>"
      "mat_size (blurredRight opt) = \<lparr>width = (c div 2 - fw div 2) div 5, height = rows img div 5\<rparr>"
      "mat_size (blurredTop opt) = \<lparr>width = (2 * (fw div 2)) div 5, height = t div 5\<rparr>"
      "mat_size (blurredBottom opt) = \<lparr>width = (2 * (fw div 2)) div 5, height = t div 5\<rparr>"
      "origHSize opt = \<lparr>width = c div 2 - fw div 2, height = rows img\<rparr>"
      "origVSize opt = \<lparr>width = 2 * (fw div 2), height = t\<rparr>"
      "fullSize opt = mat_size img" "leftBuffer opt = l" and
    bf: "buf (focused opt) = (if t < b then buf (focused opt) else 0)"
    by (rule optimizeImage_geometry)
  have lr: "0 \<le> l" "l < cols img" using cc by (simp_all add: cropColumns_eq)
  have d5: "\<And>x::int. 5 \<le> x \<Longrightarrow> 0 < x div 5"
    by (simp add: pos_imp_zdiv_pos_iff)
  from fr obtain fh fm where fh: "d2i (dmul (of_int V_FOCUS_ANGLE) (angleToHeight img)) = Inr fh"
    and tb: "t = fm - fh sdiv 2" "b = fm + fh sdiv 2"
    unfolding focusRows_Inr_iff by blast
  have bt: "b - t = 2 * (fh sdiv 2)" using tb by simp
  have "if 18 \<le> rows img
        then 5 \<le> cols (focused opt) \<and> 2 \<le> rows (focused opt)
        else cols (focused opt) = 0 \<and> rows (focused opt) = 0 \<and> buf (focused opt) = 0"
  proof (cases "18 \<le> rows img")
    case True
    then obtain k where "d2i (dmul (of_int V_FOCUS_ANGLE) (angleToHeight img)) = Inr k" "2 \<le> k"
      using focusHeight_bounds[OF True h31] by blast
    then have "2 \<le> fh" using fh by simp
    then have "1 \<le> fh sdiv 2" by (simp add: sdiv_nonneg_eq)
    then have "2 \<le> b - t" using bt by simp
    then show ?thesis using True sz(1) g(3) by (simp add: mat_size_eq_iff)
  next
    case False
    then obtain k where "d2i (dmul (of_int V_FOCUS_ANGLE) (angleToHeight img)) = Inr k"
        "0 \<le> k" "k \<le> 1"
      using focusHeight_small[of img] g(1) by auto
    then have "0 \<le> fh" "fh \<le> 1" using fh by simp_all
    then have "fh sdiv 2 = 0" by (simp add: sdiv_nonneg_eq)
    then have "\<not> t < b" using bt by simp
    then show ?thesis using False sz(1) bf by (simp add: mat_size_eq_iff)
  qed
  moreover have "\<not> size_empty (mat_size (blurredLeft opt))"
      "\<not> size_empty (mat_size (blurredRight opt))"
      "\<not> size_empty (mat_size (blurredTop opt))"
      "\<not> size_empty (mat_size (blurredBottom opt))"
    unfolding sz size_empty_def using g d5 by (simp_all add: not_le)
  moreover have "0 < width (origHSize opt)" "0 < height (origHSize opt)"
      "0 < width (origVSize opt)" "0 < height (origVSize opt)"
    unfolding sz using g by simp_all
  moreover have "0 \<le> leftBuffer opt" "leftBuffer opt < width (fullSize opt)"
    unfolding sz using lr by (simp_all add: mat_size_def)
  ultimately show ?thesis by blast
qed


theorem encoded_record_invariants_witness:
  "\<exists>s'. optimizeImage flat (frame 360 180) 180 90 store0 = (Inr encoded_90, s') \<and>
     rows (frame 360 180) < 2 ^ 31 \<and>
     \<not> size_empty (mat_size (blurredLeft encoded_90)) \<and>
     \<not> size_empty (mat_size (blurredRight encoded_90)) \<and>
     \<not> size_empty (mat_size (blurredTop encoded_90)) \<and>
     \<not> size_empty (mat_size (blurredBottom encoded_90)) \<and>
     0 < width (origHSize encoded_90) \<and> 0 < height (origHSize encoded_90) \<and>
     0 < width (origVSize encoded_90) \<and> 0 < height (origVSize encoded_90) \<and>
     0 \<le> leftBuffer encoded_90 \<and> leftBuffer encoded_90 < width (fullSize encoded_90) \<and>
     5 \<le> cols (focused encoded_90) \<and> 2 \<le> rows (focused encoded_90)"
proof -
  obtain s' where enc: "optimizeImage flat (frame 360 180) 180 90 store0 = (Inr encoded_90, s')"
    using encode_360_180_90 by blast
  have h: "rows (frame 360 180) < 2 ^ 31" by simp
  show ?thesis
    using encoded_record_invariants[OF enc h] enc h by auto
qed

text \<open>
  On a frame of 17 rows the focus band has the height \<open>20 * 17 / 180\<close>, truncated to 1,
  and half of it is 0: the row range of the focused panel is empty, its view is
  released, and the encoder returns a record whose focused panel has neither rows
  nor columns.
\<close>

theorem focused_panel_without_rows:
  "\<exists>s'. optimizeImage flat (frame 360 17) 180 90 store0 = (Inr encoded_17, s') \<and>
     rows (focused encoded_17) = 0 \<and> cols (focused encoded_17) = 0 \<and>
     size_empty (mat_size (focused encoded_17)) \<and> \<not> record_invariant encoded_17"
  using encode_360_17_90
  by (simp add: record_invariant_def size_empty_def mat_size_def encoded_17_def)

subsection \<open>The side strips\<close>

text \<open>
  C7. The claim: \<open>origHSize\<close> is the size before downsampling of both the left and
  the right strip: the strips have the same size, and the decoder restores each to
  its own size. On a frame of 363 columns at azimuth 180 the crop has 121
  columns; the left strip has 50 columns, the right strip 51, and \<open>origHSize\<close> is
  the size of the left one.
\<close>

theorem right_strip_wider_than_origHSize:
  "\<exists>cropped s1 middle left right opt s'.
     cropColumns (frame 363 180) 180 = Inr (121, 242) \<and>
     cropping (frame 363 180) 121 242 store0 = (Inr cropped, s1) \<and>
     splitH (frame 363 180) cropped = Inr (middle, left, right) \<and>
     optimizeImage flat (frame 363 180) 180 90 store0 = (Inr opt, s') \<and>
     mat_size left = \<lparr>width = 50, height = 180\<rparr> \<and>
     mat_size right = \<lparr>width = 51, height = 180\<rparr> \<and>
     origHSize opt = \<lparr>width = 50, height = 180\<rparr>"
  using encode_363_180_90 numbers_363_180(1) crop_363 split_363
  by (auto simp: mat_size_def)

subsection \<open>The pixels of a stack\<close>

lemma vconcat_Mat_empty_Inr_iff:
  "vconcat (m0 # ms) Mat_empty s = (Inr d, s') \<longleftrightarrow>
     list_all (\<lambda>m. cols m = cols m0 \<and> mtype m = mtype m0) (m0 # ms) \<and>
     0 \<le> sum_list (map rows (m0 # ms)) \<and> 0 \<le> cols m0 \<and>
     d = \<lparr>rows = sum_list (map rows (m0 # ms)), cols = cols m0, mtype = mtype m0,
          buf = Suc (fresh s), row0 = 0, col0 = 0\<rparr> \<and>
     s' = vconcat_copy (m0 # ms) d 0 (s\<lparr>fresh := Suc (fresh s)\<rparr>)"
  by (auto simp: vconcat_def create_Mat_empty simp del: vconcat_copy.simps)

text \<open>The pixels of a horizontal stack of three parts in a new buffer.\<close>

lemma hconcat3_pixels:
  assumes h: "hconcat3 a b c Mat_empty s = (Inr d, s')"
    and alloc: "buf a \<le> fresh s" "buf b \<le> fresh s" "buf c \<le> fresh s"
    and nonneg: "0 \<le> cols a" "0 \<le> cols b"
    and i: "0 \<le> i" "i < rows d" and j: "0 \<le> j"
  shows "j < cols a \<Longrightarrow> pixel s' d i j = pixel s a i j"
    and "j < cols b \<Longrightarrow> pixel s' d i (cols a + j) = pixel s b i j"
    and "j < cols c \<Longrightarrow> pixel s' d i (cols a + cols b + j) = pixel s c i j"
proof -
  from h have d: "d = \<lparr>rows = rows a, cols = cols a + cols b + cols c, mtype = mtype a,
          buf = Suc (fresh s), row0 = 0, col0 = 0\<rparr>"
    and s': "s' = hconcat_copy [a, b, c] d 0 (s\<lparr>fresh := Suc (fresh s)\<rparr>)"
    and r: "rows b = rows a" "rows c = rows a"
    unfolding hconcat3_def hconcat_Mat_empty_Inr_iff by (simp_all add: algebra_simps)
  have ne: "buf a \<noteq> Suc (fresh s)" "buf b \<noteq> Suc (fresh s)" "buf c \<noteq> Suc (fresh s)"
    using alloc by simp_all
  show "j < cols a \<Longrightarrow> pixel s' d i j = pixel s a i j"
    using i j nonneg ne r unfolding s' d
    by (simp add: pixel_def write_px_def)
  show "j < cols b \<Longrightarrow> pixel s' d i (cols a + j) = pixel s b i j"
    using i j nonneg ne r unfolding s' d
    by (simp add: pixel_def write_px_def)
  show "j < cols c \<Longrightarrow> pixel s' d i (cols a + cols b + j) = pixel s c i j"
    using i j nonneg ne r unfolding s' d
    by (simp add: pixel_def write_px_def)
qed

lemma hconcat3_result:
  assumes "hconcat3 a b c Mat_empty s = (Inr d, s')"
  shows "rows d = rows a" "rows b = rows a" "rows c = rows a"
    "cols d = cols a + cols b + cols c" "buf d = Suc (fresh s)"
    "fresh s' = Suc (fresh s)" "unchanged s s'"
    "mtype d = mtype a" "row0 d = 0" "col0 d = 0"
  using assms hconcat_Mat_empty_unchanged[of "[a, b, c]" s "Inr d" s']
  unfolding hconcat3_def hconcat_Mat_empty_Inr_iff
  by (simp_all add: algebra_simps del: hconcat_copy.simps)

lemma vconcat3_middle_pixels:
  assumes h: "vconcat3 a b c Mat_empty s = (Inr d, s')"
    and alloc: "buf b \<le> fresh s"
    and i: "0 \<le> i" "i < rows b" and j: "0 \<le> j" "j < cols b"
  shows "pixel s' d (rows a + i) j = pixel s b i j"
proof -
  from h have d: "d = \<lparr>rows = rows a + rows b + rows c, cols = cols a, mtype = mtype a,
          buf = Suc (fresh s), row0 = 0, col0 = 0\<rparr>"
    and s': "s' = vconcat_copy [a, b, c] d 0 (s\<lparr>fresh := Suc (fresh s)\<rparr>)"
    and r: "cols b = cols a" "cols c = cols a"
    unfolding vconcat3_def vconcat_Mat_empty_Inr_iff by (simp_all add: algebra_simps)
  have ne: "buf b \<noteq> Suc (fresh s)"
    using alloc by simp_all
  show ?thesis
    using i j ne r unfolding s' d
    by (simp add: pixel_def write_px_def)
qed

lemma vconcat3_result:
  assumes "vconcat3 a b c Mat_empty s = (Inr d, s')"
  shows "cols d = cols a" "cols b = cols a" "cols c = cols a"
    "rows d = rows a + rows b + rows c" "buf d = Suc (fresh s)"
    "fresh s' = Suc (fresh s)" "unchanged s s'"
    "mtype d = mtype a" "row0 d = 0" "col0 d = 0"
  using assms vconcat_Mat_empty_unchanged[of "[a, b, c]" s "Inr d" s']
  unfolding vconcat3_def vconcat_Mat_empty_Inr_iff
  by (simp_all add: algebra_simps del: vconcat_copy.simps)

lemma resize_Mat_empty_result:
  assumes "resize interp src Mat_empty dsize s = (Inr d, s')"
  shows "rows d = height dsize" "cols d = width dsize" "mtype d = mtype src"
    "buf d = Suc (fresh s)" "fresh s' = Suc (fresh s)" "unchanged s s'"
    "0 < height dsize" "0 < width dsize" "row0 d = 0" "col0 d = 0"
  using assms resize_Mat_empty_unchanged[OF assms]
  by (simp_all add: resize_new_Inr_iff Mat_empty_def)

subsection \<open>The decoder\<close>

lemma Mat_new_Inr_iff:
  "Mat_new r c t s = (Inr d, s') \<longleftrightarrow>
     0 \<le> r \<and> 0 \<le> c \<and>
     d = \<lparr>rows = r, cols = c, mtype = t, buf = Suc (fresh s), row0 = 0, col0 = 0\<rparr> \<and>
     s' = s\<lparr>fresh := Suc (fresh s)\<rparr>"
  by (auto simp: Mat_new_def create_Mat_empty)

lemma setTo_eq_iff: "setTo m v s = (Inr u, s') \<longleftrightarrow> s' = write_px m (\<lambda>r c. v) s"
  by (auto simp: setTo_def)

lemma view_pixel:
  "pixel s (m\<lparr>cols := n, col0 := col0 m + a\<rparr>) r c = pixel s m r (a + c)"
  "pixel s (m\<lparr>rows := n, row0 := row0 m + a\<rparr>) r c = pixel s m (a + r) c"
  by (simp_all add: pixel_def algebra_simps)

text \<open>
  The placement of a crop that reaches the seam: the part before the seam goes to the
  right of the frame, the part after it to the left, and black columns between them.
\<close>

lemma placement_wrap_Inr_iff:
  assumes "width (fullSize opt) \<le> cols cropped + leftBuffer opt"
  shows "placement opt cropped s = (Inr (fl, fc, fr), s') \<longleftrightarrow>
     - (2 ^ 31) \<le> cols cropped + leftBuffer opt \<and>
     cols cropped + leftBuffer opt < 2 ^ 31 \<and>
     width (fullSize opt) - leftBuffer opt < 2 ^ 31 \<and>
     0 \<le> width (fullSize opt) - leftBuffer opt \<and>
     width (fullSize opt) - leftBuffer opt \<le> cols cropped \<and>
     fr = (if 0 < rows cropped \<and> 0 < width (fullSize opt) - leftBuffer opt
           then cropped\<lparr>cols := width (fullSize opt) - leftBuffer opt - 0,
                          col0 := col0 cropped + 0\<rparr>
           else release cropped) \<and>
     fl = (if 0 < rows cropped \<and> width (fullSize opt) - leftBuffer opt < cols cropped
           then cropped\<lparr>cols := cols cropped - (width (fullSize opt) - leftBuffer opt),
                          col0 := col0 cropped + (width (fullSize opt) - leftBuffer opt)\<rparr>
           else release cropped) \<and>
     - (2 ^ 31) \<le> width (fullSize opt) - cols fr \<and> width (fullSize opt) - cols fr < 2 ^ 31 \<and>
     width (fullSize opt) - cols fr - cols fl < 2 ^ 31 \<and>
     0 \<le> width (fullSize opt) - cols fr - cols fl \<and> 0 \<le> rows cropped \<and>
     fc = \<lparr>rows = rows cropped, cols = width (fullSize opt) - cols fr - cols fl,
            mtype = mtype (focused opt), buf = Suc (fresh s), row0 = 0, col0 = 0\<rparr> \<and>
     s' = write_px fc (\<lambda>r c. 0) (s\<lparr>fresh := Suc (fresh s)\<rparr>)"
  using assms
  by (auto split del: if_split simp: placement_def Let_def then_do_Inr_iff lift_eq_iff
      Mat_view_cols_Inr_iff Mat_new_Inr_iff setTo_eq_iff mat_size_def)

text \<open>The placement of a crop that ends before the seam: black columns on both sides.\<close>

lemma placement_contained_Inr_iff:
  assumes "\<not> width (fullSize opt) \<le> cols cropped + leftBuffer opt"
  shows "placement opt cropped s = (Inr (fl, fc, fr), s') \<longleftrightarrow>
     - (2 ^ 31) \<le> cols cropped + leftBuffer opt \<and>
     cols cropped + leftBuffer opt < 2 ^ 31 \<and>
     - (2 ^ 31) \<le> width (fullSize opt) - leftBuffer opt \<and>
     width (fullSize opt) - leftBuffer opt < 2 ^ 31 \<and>
     - (2 ^ 31) \<le> width (fullSize opt) - leftBuffer opt - cols cropped \<and>
     width (fullSize opt) - leftBuffer opt - cols cropped < 2 ^ 31 \<and>
     0 \<le> leftBuffer opt \<and> 0 \<le> rows cropped \<and>
     0 \<le> width (fullSize opt) - leftBuffer opt - cols cropped \<and>
     fc = cropped \<and>
     fl = \<lparr>rows = rows cropped, cols = leftBuffer opt,
            mtype = mtype (focused opt), buf = Suc (fresh s), row0 = 0, col0 = 0\<rparr> \<and>
     fr = \<lparr>rows = rows cropped, cols = width (fullSize opt) - leftBuffer opt - cols cropped,
            mtype = mtype (focused opt), buf = Suc (Suc (fresh s)), row0 = 0, col0 = 0\<rparr> \<and>
     s' = write_px fr (\<lambda>r c. 0) (write_px fl (\<lambda>r c. 0) (s\<lparr>fresh := Suc (Suc (fresh s))\<rparr>))"
  using assms
  by (auto split del: if_split simp: placement_def Let_def then_do_Inr_iff lift_eq_iff
      Mat_new_Inr_iff setTo_eq_iff mat_size_def)

lemma placement_Inr:
  assumes "placement opt cropped s = (Inr (fl, fc, fr), s')"
  shows "unchanged s s'"
    and "fresh s' = (if width (fullSize opt) \<le> cols cropped + leftBuffer opt
                     then Suc (fresh s) else Suc (Suc (fresh s)))"
    and "cols cropped + leftBuffer opt < 2 ^ 31"
proof -
  have "unchanged s s' \<and>
      fresh s' = (if width (fullSize opt) \<le> cols cropped + leftBuffer opt
                     then Suc (fresh s) else Suc (Suc (fresh s))) \<and>
      cols cropped + leftBuffer opt < 2 ^ 31"
  proof (cases "width (fullSize opt) \<le> cols cropped + leftBuffer opt")
    case True
    from assms have
      "fc = \<lparr>rows = rows cropped, cols = width (fullSize opt) - cols fr - cols fl,
            mtype = mtype (focused opt), buf = Suc (fresh s), row0 = 0, col0 = 0\<rparr>"
      "s' = write_px fc (\<lambda>r c. 0) (s\<lparr>fresh := Suc (fresh s)\<rparr>)"
      "cols cropped + leftBuffer opt < 2 ^ 31"
      unfolding placement_wrap_Inr_iff[OF True] by blast+
    then show ?thesis using True by (simp add: unchanged_def write_px_other)
  next
    case False
    from assms have
      "fl = \<lparr>rows = rows cropped, cols = leftBuffer opt,
            mtype = mtype (focused opt), buf = Suc (fresh s), row0 = 0, col0 = 0\<rparr>"
      "fr = \<lparr>rows = rows cropped, cols = width (fullSize opt) - leftBuffer opt - cols cropped,
            mtype = mtype (focused opt), buf = Suc (Suc (fresh s)), row0 = 0, col0 = 0\<rparr>"
      "s' = write_px fr (\<lambda>r c. 0) (write_px fl (\<lambda>r c. 0) (s\<lparr>fresh := Suc (Suc (fresh s))\<rparr>))"
      "cols cropped + leftBuffer opt < 2 ^ 31"
      unfolding placement_contained_Inr_iff[OF False] by blast+
    then show ?thesis using False by (simp add: unchanged_def write_px_other)
  qed
  then show "unchanged s s'"
    and "fresh s' = (if width (fullSize opt) \<le> cols cropped + leftBuffer opt
                     then Suc (fresh s) else Suc (Suc (fresh s)))"
    and "cols cropped + leftBuffer opt < 2 ^ 31"
    by blast+
qed

lemma unchanged_fresh: "unchanged s s' \<Longrightarrow> fresh s \<le> fresh s'"
  by (simp add: unchanged_def)

lemma reconstruct_Inr:
  assumes rc: "reconstruct interp opt s = (Inr cropped, s')"
  shows "rows cropped = height (origHSize opt)"
    and "cols cropped = 2 * width (origHSize opt) + width (origVSize opt)"
    and "height (origHSize opt) = 2 * height (origVSize opt) + rows (focused opt)"
    and "cols (focused opt) = width (origVSize opt)"
    and "unchanged s s'" and "buf cropped \<le> fresh s'"
    and "row0 cropped = 0" and "col0 cropped = 0"
    and "0 < height (origHSize opt)" and "0 < width (origHSize opt)"
    and "0 < height (origVSize opt)" and "0 < width (origVSize opt)"
    and "buf (focused opt) \<le> fresh s \<Longrightarrow> 0 \<le> i \<Longrightarrow> i < rows (focused opt) \<Longrightarrow>
         0 \<le> j \<Longrightarrow> j < cols (focused opt) \<Longrightarrow>
         pixel s' cropped (height (origVSize opt) + i) (width (origHSize opt) + j) =
           pixel s (focused opt) i j"
proof -
  from rc obtain left s1 right s2 tp s3 bottom s4 middle s5 where
    l: "resize interp (blurredLeft opt) Mat_empty (origHSize opt) s = (Inr left, s1)" and
    r: "resize interp (blurredRight opt) Mat_empty (origHSize opt) s1 = (Inr right, s2)" and
    t: "resize interp (blurredTop opt) Mat_empty (origVSize opt) s2 = (Inr tp, s3)" and
    b: "resize interp (blurredBottom opt) Mat_empty (origVSize opt) s3 = (Inr bottom, s4)" and
    v: "vconcat3 tp (focused opt) bottom Mat_empty s4 = (Inr middle, s5)" and
    h: "hconcat3 left middle right Mat_empty s5 = (Inr cropped, s')"
    unfolding reconstruct_def then_do_Inr_iff by blast
  note L = resize_Mat_empty_result[OF l] and R = resize_Mat_empty_result[OF r]
    and T = resize_Mat_empty_result[OF t] and B = resize_Mat_empty_result[OF b]
    and V = vconcat3_result[OF v] and H = hconcat3_result[OF h]
  have u4: "unchanged s s4"
    using L(6) R(6) T(6) B(6) by (blast intro: unchanged_trans)
  have u5: "unchanged s s5" using u4 V(7) by (rule unchanged_trans)
  show "unchanged s s'" using u5 H(7) by (rule unchanged_trans)
  show "rows cropped = height (origHSize opt)" using H L by simp
  show "cols cropped = 2 * width (origHSize opt) + width (origVSize opt)"
    using H L R V T by simp
  show hh: "height (origHSize opt) = 2 * height (origVSize opt) + rows (focused opt)"
    using H L V T B by simp
  show "cols (focused opt) = width (origVSize opt)" using V T by simp
  show "buf cropped \<le> fresh s'" using H by simp
  show "row0 cropped = 0" "col0 cropped = 0" using H by simp_all
  show "0 < height (origHSize opt)" "0 < width (origHSize opt)" using L by simp_all
  show "0 < height (origVSize opt)" "0 < width (origVSize opt)" using T by simp_all
  assume a: "buf (focused opt) \<le> fresh s" and i: "0 \<le> i" "i < rows (focused opt)"
    and j: "0 \<le> j" "j < cols (focused opt)"
  have f4: "buf (focused opt) \<le> fresh s4" using a unchanged_fresh[OF u4] by simp
  have fr: "fresh s1 = Suc (fresh s)" "fresh s2 = Suc (Suc (fresh s))"
      "fresh s3 = Suc (Suc (Suc (fresh s)))" "fresh s4 = Suc (Suc (Suc (Suc (fresh s))))"
      "fresh s5 = Suc (Suc (Suc (Suc (Suc (fresh s)))))"
    using L R T B V by simp_all
  have "pixel s' cropped (height (origVSize opt) + i) (cols left + j) =
      pixel s5 middle (height (origVSize opt) + i) j"
    using i j L R T B V H fr
    by (intro hconcat3_pixels(2)[OF h]) simp_all
  also have "\<dots> = pixel s5 middle (rows tp + i) j" using T by simp
  also have "\<dots> = pixel s4 (focused opt) i j"
    using i j f4 by (intro vconcat3_middle_pixels[OF v]) simp_all
  also have "\<dots> = pixel s (focused opt) i j"
    using unchanged_pixel[OF u4 a] by simp
  finally show "pixel s' cropped (height (origVSize opt) + i) (width (origHSize opt) + j) =
      pixel s (focused opt) i j"
    using L by simp
qed

lemma extractImage_Inr_iff:
  "extractImage interp opt s = (Inr full, s') \<longleftrightarrow>
     (\<exists>cropped s1 fl fc fr s2.
        reconstruct interp opt s = (Inr cropped, s1) \<and>
        placement opt cropped s1 = (Inr (fl, fc, fr), s2) \<and>
        hconcat3 fl fc fr Mat_empty s2 = (Inr full, s') \<and>
        mat_size full = fullSize opt)"
  by (auto simp: extractImage_def then_do_Inr_iff lift_eq_iff)

text \<open>Where the decoder puts the focused panel.\<close>

lemma extractImage_focus:
  assumes dec: "extractImage interp opt s = (Inr full, s')"
    and alloc: "buf (focused opt) \<le> fresh s"
    and lb: "0 \<le> leftBuffer opt" "leftBuffer opt < width (fullSize opt)"
    and i: "0 \<le> i" "i < rows (focused opt)" and j: "0 \<le> j" "j < cols (focused opt)"
  shows "pixel s' full (height (origVSize opt) + i)
           ((leftBuffer opt + width (origHSize opt) + j) mod width (fullSize opt)) =
         pixel s (focused opt) i j"
proof -
  define W where "W = width (fullSize opt)"
  define lb where "lb = leftBuffer opt"
  define I where "I = height (origVSize opt) + i"
  define J where "J = width (origHSize opt) + j"
  from dec obtain cropped s1 fl fc fr s2 where
    rc: "reconstruct interp opt s = (Inr cropped, s1)" and
    pl: "placement opt cropped s1 = (Inr (fl, fc, fr), s2)" and
    h: "hconcat3 fl fc fr Mat_empty s2 = (Inr full, s')"
    unfolding extractImage_Inr_iff by blast
  note RC = reconstruct_Inr[OF rc]
  note PL = placement_Inr[OF pl, folded W_def lb_def]
  note H = hconcat3_result[OF h]
  note wrap = placement_wrap_Inr_iff[of opt cropped s1 fl fc fr s2, folded W_def lb_def]
  note contained = placement_contained_Inr_iff[of opt cropped s1 fl fc fr s2, folded W_def lb_def]
  have px: "pixel s1 cropped I J = pixel s (focused opt) i j"
    unfolding I_def J_def using alloc i j by (rule RC(13))
  have cb: "buf cropped \<le> fresh s2" using RC(6) unchanged_fresh[OF PL(1)] by simp
  have px2: "pixel s2 cropped = pixel s1 cropped"
    using unchanged_pixel[OF PL(1) RC(6)] .
  have I: "0 \<le> I" "I < rows cropped"
    using i RC(1,3,11) by (simp_all add: I_def)
  have J: "0 \<le> J" "J < cols cropped"
    using j RC(2,4,10) by (simp_all add: J_def)
  have lbW: "0 \<le> lb" "lb < W" using lb by (simp_all add: lb_def W_def)
  have "pixel s' full I ((lb + J) mod W) = pixel s (focused opt) i j"
  proof (cases "W \<le> cols cropped + lb")
    case True
    from pl have P0: "W - lb \<le> cols cropped"
        "fr = (if 0 < rows cropped \<and> 0 < W - lb
           then cropped\<lparr>cols := W - lb - 0, col0 := col0 cropped + 0\<rparr>
           else release cropped)"
        "fl = (if 0 < rows cropped \<and> W - lb < cols cropped
           then cropped\<lparr>cols := cols cropped - (W - lb), col0 := col0 cropped + (W - lb)\<rparr>
           else release cropped)"
        "0 \<le> W - cols fr - cols fl"
        "fc = \<lparr>rows = rows cropped, cols = W - cols fr - cols fl,
            mtype = mtype (focused opt), buf = Suc (fresh s1), row0 = 0, col0 = 0\<rparr>"
      unfolding wrap[OF True] by blast+
    have rc0: "0 < rows cropped" using I by simp
    have "rows fc = rows cropped" using P0(5) by simp
    then have rows_parts: "0 < rows fl" "0 < rows fr" using H(2,3) rc0 by simp_all
    have P34: "fr = cropped\<lparr>cols := W - lb - 0, col0 := col0 cropped + 0\<rparr>"
        "fl = cropped\<lparr>cols := cols cropped - (W - lb), col0 := col0 cropped + (W - lb)\<rparr>"
      using P0(2,3) rows_parts by (simp_all split: if_splits)
    have P: "W - lb \<le> cols cropped" "cols cropped \<le> W"
        "fr = cropped\<lparr>cols := W - lb - 0, col0 := col0 cropped + 0\<rparr>"
        "fl = cropped\<lparr>cols := cols cropped - (W - lb), col0 := col0 cropped + (W - lb)\<rparr>"
        "fc = \<lparr>rows = rows cropped, cols = W - cols cropped,
                     mtype = mtype (focused opt), buf = Suc (fresh s1), row0 = 0, col0 = 0\<rparr>"
      using P0(1,4,5) P34 by simp_all
    have fs2: "fresh s2 = Suc (fresh s1)" using PL(2) True by simp
    have bufs: "buf fl \<le> fresh s2" "buf fc \<le> fresh s2" "buf fr \<le> fresh s2"
      using cb P fs2 by simp_all
    have rows_full: "rows full = rows cropped" using H(1) P by simp
    show ?thesis
    proof (cases "J < W - lb")
      case True
      have "pixel s' full I (cols fl + cols fc + J) = pixel s2 fr I J"
        using I J True P bufs rows_full by (intro hconcat3_pixels(3)[OF h]) simp_all
      also have "\<dots> = pixel s2 cropped I J" unfolding P(3) view_pixel by simp
      finally have "pixel s' full I (lb + J) = pixel s (focused opt) i j"
        using px px2 P by (simp add: algebra_simps)
      moreover have "(lb + J) mod W = lb + J"
        using True lbW J by (intro mod_pos_pos_trivial) simp_all
      ultimately show ?thesis by simp
    next
      case False
      have "pixel s' full I (J - (W - lb)) = pixel s2 fl I (J - (W - lb))"
        using I J False P bufs rows_full by (intro hconcat3_pixels(1)[OF h]) simp_all
      also have "\<dots> = pixel s2 cropped I J" unfolding P(4) view_pixel by simp
      finally have "pixel s' full I (lb + J - W) = pixel s (focused opt) i j"
        using px px2 by (simp add: algebra_simps)
      moreover have "(lb + J) mod W = lb + J - W"
        using False lbW J P by (intro int_mod_pos_eq[where q = 1]) simp_all
      ultimately show ?thesis by simp
    qed
  next
    case False
    from pl have P: "0 \<le> W - lb - cols cropped" "fc = cropped"
        "fl = \<lparr>rows = rows cropped, cols = lb,
                     mtype = mtype (focused opt), buf = Suc (fresh s1), row0 = 0, col0 = 0\<rparr>"
        "fr = \<lparr>rows = rows cropped, cols = W - lb - cols cropped,
                     mtype = mtype (focused opt), buf = Suc (Suc (fresh s1)), row0 = 0, col0 = 0\<rparr>"
      unfolding contained[OF False] by blast+
    have fs2: "fresh s2 = Suc (Suc (fresh s1))" using PL(2) False by simp
    have bufs: "buf fl \<le> fresh s2" "buf fc \<le> fresh s2" "buf fr \<le> fresh s2"
      using cb P fs2 by simp_all
    have rows_full: "rows full = rows cropped" using H(1) P by simp
    have "pixel s' full I (cols fl + J) = pixel s2 fc I J"
      using I J lbW P bufs rows_full by (intro hconcat3_pixels(2)[OF h]) simp_all
    then have "pixel s' full I (lb + J) = pixel s (focused opt) i j"
      using px px2 P by simp
    moreover have "(lb + J) mod W = lb + J"
      using False lbW J by (intro mod_pos_pos_trivial) simp_all
    ultimately show ?thesis by simp
  qed
  then show ?thesis
    by (simp add: I_def J_def lb_def W_def add.assoc)
qed

lemma resize_Mat_empty_eq:
  "resize interp src Mat_empty dsize s =
     (if rows src \<le> 0 \<or> cols src \<le> 0 \<or> width dsize \<le> 0 \<or> height dsize \<le> 0
      then (Inl CvException, s)
      else (Inr \<lparr>rows = height dsize, cols = width dsize, mtype = mtype src,
                  buf = Suc (fresh s), row0 = 0, col0 = 0\<rparr>,
            write_px \<lparr>rows = height dsize, cols = width dsize, mtype = mtype src,
                  buf = Suc (fresh s), row0 = 0, col0 = 0\<rparr>
              (interp (pixel s src) (mat_size src) dsize) (s\<lparr>fresh := Suc (fresh s)\<rparr>)))"
  by (rule resize_new) (simp add: Mat_empty_def)

lemma decode_60_fails: "fst (extractImage interp encoded_60 s) = Inl CvException"
  by (simp add: extractImage_def reconstruct_def then_do_def resize_Mat_empty_eq encoded_60_def
      vconcat3_def vconcat_def hconcat3_def hconcat_def create_Mat_empty
      del: hconcat_copy.simps vconcat_copy.simps)

lemma resize_Mat_empty_succeeds:
  assumes "0 < rows src" "0 < cols src" "0 < width dsize" "0 < height dsize"
  shows "\<exists>d s'. resize interp src Mat_empty dsize s = (Inr d, s') \<and>
           rows d = height dsize \<and> cols d = width dsize \<and> mtype d = mtype src"
  using assms by (simp add: resize_Mat_empty_eq)

lemma vconcat3_succeeds:
  assumes "cols b = cols a" "cols c = cols a" "mtype b = mtype a" "mtype c = mtype a"
    "0 \<le> rows a + rows b + rows c" "0 \<le> cols a"
  shows "\<exists>d s'. vconcat3 a b c Mat_empty s = (Inr d, s')"
  using assms
  by (simp add: vconcat3_def vconcat_Mat_empty_Inr_iff algebra_simps del: vconcat_copy.simps)

lemma hconcat3_succeeds:
  assumes "rows b = rows a" "rows c = rows a" "mtype b = mtype a" "mtype c = mtype a"
    "0 \<le> cols a + cols b + cols c" "0 \<le> rows a"
  shows "\<exists>d s'. hconcat3 a b c Mat_empty s = (Inr d, s')"
  using assms
  by (simp add: hconcat3_def hconcat_Mat_empty_Inr_iff algebra_simps del: hconcat_copy.simps)

text \<open>
  The decoder returns a frame for a record whose panels are not empty and have one
  type, and whose sizes fit: the vertical stack is as high as the side strips, the
  crop is not wider than the frame, and it does not end exactly at the seam.
\<close>

lemma extractImage_succeeds:
  assumes panels: "\<not> size_empty (mat_size (blurredLeft opt))"
      "\<not> size_empty (mat_size (blurredRight opt))"
      "\<not> size_empty (mat_size (blurredTop opt))"
      "\<not> size_empty (mat_size (blurredBottom opt))"
    and sizes: "\<not> size_empty (origHSize opt)" "\<not> size_empty (origVSize opt)"
    and types: "mtype (blurredLeft opt) = mtype (focused opt)"
      "mtype (blurredRight opt) = mtype (focused opt)"
      "mtype (blurredTop opt) = mtype (focused opt)"
      "mtype (blurredBottom opt) = mtype (focused opt)"
    and fit: "cols (focused opt) = width (origVSize opt)"
      "height (origHSize opt) = 2 * height (origVSize opt) + rows (focused opt)"
      "2 * width (origHSize opt) + width (origVSize opt) \<le> width (fullSize opt)"
      "height (fullSize opt) = height (origHSize opt)"
      "0 \<le> leftBuffer opt" "leftBuffer opt < width (fullSize opt)"
    and seam: "width (fullSize opt) \<noteq>
        2 * width (origHSize opt) + width (origVSize opt) + leftBuffer opt"
    and range: "2 * width (origHSize opt) + width (origVSize opt) + leftBuffer opt < 2 ^ 31"
      "width (fullSize opt) < 2 ^ 31"
  shows "\<exists>full s'. extractImage interp opt s = (Inr full, s')"
proof -
  have pos: "0 < rows (blurredLeft opt)" "0 < cols (blurredLeft opt)"
      "0 < rows (blurredRight opt)" "0 < cols (blurredRight opt)"
      "0 < rows (blurredTop opt)" "0 < cols (blurredTop opt)"
      "0 < rows (blurredBottom opt)" "0 < cols (blurredBottom opt)"
      "0 < width (origHSize opt)" "0 < height (origHSize opt)"
      "0 < width (origVSize opt)" "0 < height (origVSize opt)"
    using panels sizes by (simp_all add: size_empty_def mat_size_def)
  obtain left s1 where l: "resize interp (blurredLeft opt) Mat_empty (origHSize opt) s = (Inr left, s1)"
    and L: "rows left = height (origHSize opt)" "cols left = width (origHSize opt)"
      "mtype left = mtype (blurredLeft opt)"
    using resize_Mat_empty_succeeds[OF pos(1,2,9,10)] by blast
  obtain right s2 where r: "resize interp (blurredRight opt) Mat_empty (origHSize opt) s1 = (Inr right, s2)"
    and R: "rows right = height (origHSize opt)" "cols right = width (origHSize opt)"
      "mtype right = mtype (blurredRight opt)"
    using resize_Mat_empty_succeeds[OF pos(3,4,9,10)] by blast
  obtain tp s3 where t: "resize interp (blurredTop opt) Mat_empty (origVSize opt) s2 = (Inr tp, s3)"
    and T: "rows tp = height (origVSize opt)" "cols tp = width (origVSize opt)"
      "mtype tp = mtype (blurredTop opt)"
    using resize_Mat_empty_succeeds[OF pos(5,6,11,12)] by blast
  obtain bottom s4 where b: "resize interp (blurredBottom opt) Mat_empty (origVSize opt) s3 = (Inr bottom, s4)"
    and B: "rows bottom = height (origVSize opt)" "cols bottom = width (origVSize opt)"
      "mtype bottom = mtype (blurredBottom opt)"
    using resize_Mat_empty_succeeds[OF pos(7,8,11,12)] by blast
  obtain middle s5 where v: "vconcat3 tp (focused opt) bottom Mat_empty s4 = (Inr middle, s5)"
    using vconcat3_succeeds[of "focused opt" tp bottom s4] T B types fit pos by auto
  note V = vconcat3_result[OF v]
  obtain cropped s6 where h: "hconcat3 left middle right Mat_empty s5 = (Inr cropped, s6)"
    using hconcat3_succeeds[of middle left right s5] L R T B V types fit pos by auto
  note H = hconcat3_result[OF h]
  have rc: "reconstruct interp opt s = (Inr cropped, s6)"
    unfolding reconstruct_def then_do_Inr_iff using l r t b v h by blast
  have cw: "cols cropped = 2 * width (origHSize opt) + width (origVSize opt)"
      "rows cropped = height (origHSize opt)" "mtype cropped = mtype (focused opt)"
    using H L R V T types by simp_all
  have "\<exists>fl fc fr s7. placement opt cropped s6 = (Inr (fl, fc, fr), s7) \<and>
      rows fl = rows cropped \<and> rows fc = rows cropped \<and> rows fr = rows cropped \<and>
      mtype fl = mtype (focused opt) \<and> mtype fc = mtype (focused opt) \<and>
      mtype fr = mtype (focused opt) \<and>
      cols fl + cols fc + cols fr = width (fullSize opt)"
  proof (cases "width (fullSize opt) \<le> cols cropped + leftBuffer opt")
    case True
    define fr where "fr = cropped\<lparr>cols := width (fullSize opt) - leftBuffer opt - 0,
                          col0 := col0 cropped + 0\<rparr>"
    define fl where "fl = cropped\<lparr>cols := cols cropped - (width (fullSize opt) - leftBuffer opt),
                          col0 := col0 cropped + (width (fullSize opt) - leftBuffer opt)\<rparr>"
    define fc where "fc = \<lparr>rows = rows cropped, cols = width (fullSize opt) - cols fr - cols fl,
            mtype = mtype (focused opt), buf = Suc (fresh s6), row0 = 0, col0 = 0\<rparr>"
    have lt: "width (fullSize opt) - leftBuffer opt < cols cropped"
      using True seam cw(1) by simp
    have "placement opt cropped s6 =
        (Inr (fl, fc, fr), write_px fc (\<lambda>r c. 0) (s6\<lparr>fresh := Suc (fresh s6)\<rparr>))"
      unfolding placement_wrap_Inr_iff[OF True]
      using lt fit pos cw range by (simp add: fr_def fl_def fc_def)
    moreover have "rows fl = rows cropped" "rows fc = rows cropped" "rows fr = rows cropped"
        "mtype fl = mtype (focused opt)" "mtype fc = mtype (focused opt)"
        "mtype fr = mtype (focused opt)"
        "cols fl + cols fc + cols fr = width (fullSize opt)"
      using cw by (simp_all add: fr_def fl_def fc_def)
    ultimately show ?thesis by blast
  next
    case False
    define fl where "fl = \<lparr>rows = rows cropped, cols = leftBuffer opt,
            mtype = mtype (focused opt), buf = Suc (fresh s6), row0 = 0, col0 = 0\<rparr>"
    define fr where "fr = \<lparr>rows = rows cropped,
            cols = width (fullSize opt) - leftBuffer opt - cols cropped,
            mtype = mtype (focused opt), buf = Suc (Suc (fresh s6)), row0 = 0, col0 = 0\<rparr>"
    have "placement opt cropped s6 =
        (Inr (fl, cropped, fr),
         write_px fr (\<lambda>r c. 0) (write_px fl (\<lambda>r c. 0) (s6\<lparr>fresh := Suc (Suc (fresh s6))\<rparr>)))"
      unfolding placement_contained_Inr_iff[OF False]
      using False fit pos cw range by (simp add: fr_def fl_def)
    moreover have "rows fl = rows cropped" "rows fr = rows cropped"
        "mtype fl = mtype (focused opt)" "mtype cropped = mtype (focused opt)"
        "mtype fr = mtype (focused opt)"
        "cols fl + cols cropped + cols fr = width (fullSize opt)"
      using cw by (simp_all add: fr_def fl_def)
    ultimately show ?thesis by blast
  qed
  then obtain fl fc fr s7 where pl: "placement opt cropped s6 = (Inr (fl, fc, fr), s7)"
    and parts: "rows fl = rows cropped" "rows fc = rows cropped" "rows fr = rows cropped"
      "mtype fl = mtype (focused opt)" "mtype fc = mtype (focused opt)"
      "mtype fr = mtype (focused opt)"
      "cols fl + cols fc + cols fr = width (fullSize opt)"
    by blast
  obtain full s8 where f: "hconcat3 fl fc fr Mat_empty s7 = (Inr full, s8)"
    using hconcat3_succeeds[of fc fl fr s7] parts fit pos cw by auto
  note F = hconcat3_result[OF f]
  have "mat_size full = fullSize opt"
    using F parts cw fit by (simp add: mat_size_def)
  then have "extractImage interp opt s = (Inr full, s8)"
    unfolding extractImage_Inr_iff using rc pl f by blast
  then show ?thesis by blast
qed

lemma decode_90_succeeds: "\<exists>full s'. extractImage interp encoded_90 s = (Inr full, s')"
  by (rule extractImage_succeeds) (simp_all add: encoded_90_def size_empty_def mat_size_def)

subsection \<open>The focused patch\<close>

lemma hconcat2_pixels:
  assumes h: "hconcat [a, b] Mat_empty s = (Inr d, s')"
    and alloc: "buf a \<le> fresh s" "buf b \<le> fresh s"
    and nonneg: "0 \<le> cols a"
    and i: "0 \<le> i" "i < rows d" and j: "0 \<le> j"
  shows "j < cols a \<Longrightarrow> pixel s' d i j = pixel s a i j"
    and "j < cols b \<Longrightarrow> pixel s' d i (cols a + j) = pixel s b i j"
proof -
  from h have d: "d = \<lparr>rows = rows a, cols = cols a + cols b, mtype = mtype a,
          buf = Suc (fresh s), row0 = 0, col0 = 0\<rparr>"
    and s': "s' = hconcat_copy [a, b] d 0 (s\<lparr>fresh := Suc (fresh s)\<rparr>)"
    and r: "rows b = rows a"
    unfolding hconcat_Mat_empty_Inr_iff by (simp_all add: algebra_simps)
  have ne: "buf a \<noteq> Suc (fresh s)" "buf b \<noteq> Suc (fresh s)"
    using alloc by simp_all
  show "j < cols a \<Longrightarrow> pixel s' d i j = pixel s a i j"
    using i j nonneg ne r unfolding s' d
    by (simp add: pixel_def write_px_def)
  show "j < cols b \<Longrightarrow> pixel s' d i (cols a + j) = pixel s b i j"
    using i j nonneg ne r unfolding s' d
    by (simp add: pixel_def write_px_def)
qed

text \<open>
  The pixels of the crop: column \<open>J\<close> of the crop is column \<open>(leftCol + J) mod width\<close>
  of the frame.
\<close>

lemma cropping_pixels:
  assumes cr: "cropping img l r s = (Inr cropped, s')"
    and lr: "0 \<le> l" "l < cols img" "0 \<le> r" "r < cols img"
    and alloc: "buf img \<le> fresh s"
    and I: "0 \<le> I" "I < rows img" and J: "0 \<le> J" "J < cols cropped"
  shows "pixel s' cropped I J = pixel s img I ((l + J) mod cols img)"
    and "buf cropped \<le> fresh s'"
proof -
  have both: "pixel s' cropped I J = pixel s img I ((l + J) mod cols img) \<and> buf cropped \<le> fresh s'"
  proof (cases "l < r")
    case True
    then have c: "cropped = img\<lparr>cols := r - l, col0 := col0 img + l\<rparr>" "s' = s"
      using cr I by (auto simp: cropping_def lift_eq_iff Mat_view_cols_Inr_iff)
    have "(l + J) mod cols img = l + J"
      using J lr c by (intro mod_pos_pos_trivial) simp_all
    then show ?thesis using alloc unfolding c view_pixel by simp
  next
    case False
    define a where "a = img\<lparr>cols := cols img - l, col0 := col0 img + l\<rparr>"
    define b where "b = img\<lparr>cols := r - 0, col0 := col0 img + 0\<rparr>"
    have h0: "0 < rows img" using I by simp
    have r0: "0 < r" using cropping_size(4)[OF cr h0 lr(2)] False by simp
    from False cr have h: "hconcat [a, b] Mat_empty s = (Inr cropped, s')"
      using h0 r0 lr
      by (simp add: cropping_def lift_eq_iff then_do_Inr_iff Mat_view_cols_Inr_iff a_def b_def
          del: hconcat_copy.simps)
    have d: "rows cropped = rows img" "cols cropped = cols img - l + r"
        "buf cropped = Suc (fresh s)" "fresh s' = Suc (fresh s)"
      using h unfolding hconcat_Mat_empty_Inr_iff by (simp_all add: a_def b_def)
    have ab: "buf a \<le> fresh s" "buf b \<le> fresh s" "0 \<le> cols a"
      using alloc lr by (simp_all add: a_def b_def)
    have Id: "0 \<le> I" "I < rows cropped" using I d by simp_all
    show ?thesis
    proof (cases "J < cols img - l")
      case True
      have "pixel s' cropped I J = pixel s a I J"
        using True J by (intro hconcat2_pixels(1)[OF h ab Id]) (simp_all add: a_def)
      moreover have "(l + J) mod cols img = l + J"
        using True J lr by (intro mod_pos_pos_trivial) simp_all
      ultimately show ?thesis using d unfolding a_def view_pixel by simp
    next
      case False
      have "pixel s' cropped I (cols a + (J - (cols img - l))) = pixel s b I (J - (cols img - l))"
        using False J d by (intro hconcat2_pixels(2)[OF h ab Id]) (simp_all add: b_def)
      then have "pixel s' cropped I J = pixel s img I (l + J - cols img)"
        unfolding b_def view_pixel by (simp add: a_def algebra_simps)
      moreover have "(l + J) mod cols img = l + J - cols img"
        using False J lr d by (intro int_mod_pos_eq[where q = 1]) simp_all
      ultimately show ?thesis using d by simp
    qed
  qed
  show "pixel s' cropped I J = pixel s img I ((l + J) mod cols img)" using both ..
  show "buf cropped \<le> fresh s'" using both ..
qed

lemma optimizeImage_focus:
  assumes enc: "optimizeImage interp img angle vAngle s = (Inr opt, s')"
    and alloc: "buf img \<le> fresh s"
    and i: "0 \<le> i" "i < rows (focused opt)" and j: "0 \<le> j" "j < cols (focused opt)"
  shows "pixel s' (focused opt) i j =
           pixel s img (height (origVSize opt) + i)
             ((leftBuffer opt + width (origHSize opt) + j) mod cols img)"
    and "buf (focused opt) \<le> fresh s'"
proof -
  from enc obtain l r cropped s1 fw middle left right s2 t b tp bottom where
    cc: "cropColumns img angle = Inr (l, r)" and
    cr: "cropping img l r s = (Inr cropped, s1)" and
    rows_c: "rows cropped = rows img" and
    h1: "0 < cols cropped div 2 - fw div 2" "0 < fw div 2"
      "cols cropped div 2 + fw div 2 < cols cropped" and
    m0: "middle = cropped\<lparr>cols := cols cropped div 2 + fw div 2 - (cols cropped div 2 - fw div 2),
                       col0 := col0 cropped + (cols cropped div 2 - fw div 2)\<rparr>" and
    le0: "left = cropped\<lparr>cols := cols cropped div 2 - fw div 2 - 0, col0 := col0 cropped + 0\<rparr>" and
    ri0: "right = cropped\<lparr>cols := cols cropped - (cols cropped div 2 + fw div 2),
                      col0 := col0 cropped + (cols cropped div 2 + fw div 2)\<rparr>" and
    bh: "blurH interp left right s1 = (Inr (origHSize opt, blurredLeft opt, blurredRight opt), s2)" and
    t: "0 < t" "t \<le> b" "b < rows img" and
    tp: "tp = middle\<lparr>rows := t - 0, row0 := row0 middle + 0\<rparr>" and
    f0: "focused opt = (if t < b then middle\<lparr>rows := b - t, row0 := row0 middle + t\<rparr>
                    else release middle)" and
    bv: "blurV interp tp bottom s2 = (Inr (origVSize opt, blurredTop opt, blurredBottom opt), s')" and
    fs: "leftBuffer opt = l"
    by (rule optimizeImage_views)
  have lr: "0 \<le> l" "l < cols img" "0 \<le> r" "r < cols img"
    using cc by (simp_all add: cropColumns_eq)
  define flc where "flc = cols cropped div 2 - fw div 2"
  define n where "n = cols cropped div 2 + fw div 2 - (cols cropped div 2 - fw div 2)"
  have flc: "0 \<le> flc" "0 \<le> n" "flc + n < cols cropped"
    using h1 by (simp_all add: flc_def n_def)
  have m: "middle = cropped\<lparr>cols := n, col0 := col0 cropped + flc\<rparr>"
    and le: "left = cropped\<lparr>cols := flc - 0, col0 := col0 cropped + 0\<rparr>"
    using m0 le0 by (simp_all add: flc_def n_def)
  have rr: "0 < rows left \<longrightarrow> rows right = rows left" using le0 ri0 by simp
  have tb: "t < b" using i f0 by (simp split: if_splits)
  then have f: "focused opt = middle\<lparr>rows := b - t, row0 := row0 middle + t\<rparr>"
    using f0 by simp
  have oh: "origHSize opt = mat_size left" using bh unfolding blurH_Inr_iff[OF rr] by simp
  have ov: "origVSize opt = mat_size tp" using bv unfolding blurV_Inr_iff by simp
  have sizes: "width (origHSize opt) = flc" "height (origVSize opt) = t"
    using oh ov le tp by (simp_all add: mat_size_def)
  have u: "unchanged s1 s'"
    using blurH_unchanged[OF bh rr] blurV_unchanged[OF bv] by (rule unchanged_trans)
  have I: "0 \<le> t + i" "t + i < rows img"
    using i t f m rows_c by simp_all
  have J: "0 \<le> flc + j" "flc + j < cols cropped"
    using j flc f m by simp_all
  note C = cropping_pixels[OF cr lr alloc I J]
  have "pixel s' (focused opt) i j = pixel s' cropped (t + i) (flc + j)"
    unfolding f m by (simp add: pixel_def algebra_simps)
  also have "\<dots> = pixel s1 cropped (t + i) (flc + j)"
    using unchanged_pixel[OF u C(2)] by simp
  also have "\<dots> = pixel s img (t + i) ((l + (flc + j)) mod cols img)" by (rule C(1))
  finally show "pixel s' (focused opt) i j =
           pixel s img (height (origVSize opt) + i)
             ((leftBuffer opt + width (origHSize opt) + j) mod cols img)"
    by (simp add: sizes fs add.assoc)
  show "buf (focused opt) \<le> fresh s'"
    using C(2) unchanged_fresh[OF u] by (simp add: f m)
qed


lemma placement_padding:
  assumes pl: "placement opt cropped s = (Inr (fl, fc, fr), s')"
    and contained: "cols cropped + leftBuffer opt < width (fullSize opt)"
    and I: "0 \<le> I" "I < rows cropped" and J: "0 \<le> J" "J < leftBuffer opt"
  shows "pixel s' fl I J = 0"
proof -
  have c: "\<not> width (fullSize opt) \<le> cols cropped + leftBuffer opt" using contained by simp
  from pl have
    "fl = \<lparr>rows = rows cropped, cols = leftBuffer opt,
            mtype = mtype (focused opt), buf = Suc (fresh s), row0 = 0, col0 = 0\<rparr>"
    "fr = \<lparr>rows = rows cropped, cols = width (fullSize opt) - leftBuffer opt - cols cropped,
            mtype = mtype (focused opt), buf = Suc (Suc (fresh s)), row0 = 0, col0 = 0\<rparr>"
    "s' = write_px fr (\<lambda>r c. 0) (write_px fl (\<lambda>r c. 0) (s\<lparr>fresh := Suc (Suc (fresh s))\<rparr>))"
    unfolding placement_contained_Inr_iff[OF c] by blast+
  then show ?thesis using I J by (simp add: pixel_def write_px_def)
qed

text \<open>The columns to the left of a crop that does not reach the seam are black.\<close>

lemma extractImage_left_padding:
  assumes dec: "extractImage interp opt s = (Inr full, s')"
    and contained: "2 * width (origHSize opt) + width (origVSize opt) + leftBuffer opt
                      < width (fullSize opt)"
    and I: "0 \<le> I" "I < height (origHSize opt)" and J: "0 \<le> J" "J < leftBuffer opt"
  shows "pixel s' full I J = 0"
proof -
  from dec obtain cropped s1 fl fc fr s2 where
    rc: "reconstruct interp opt s = (Inr cropped, s1)" and
    pl: "placement opt cropped s1 = (Inr (fl, fc, fr), s2)" and
    h: "hconcat3 fl fc fr Mat_empty s2 = (Inr full, s')"
    unfolding extractImage_Inr_iff by blast
  note RC = reconstruct_Inr[OF rc]
  have c: "cols cropped + leftBuffer opt < width (fullSize opt)" using contained RC(2) by simp
  then have nw: "\<not> width (fullSize opt) \<le> cols cropped + leftBuffer opt" by simp
  note PL = placement_Inr[OF pl]
  from pl have P: "fc = cropped"
      "fl = \<lparr>rows = rows cropped, cols = leftBuffer opt,
                     mtype = mtype (focused opt), buf = Suc (fresh s1), row0 = 0, col0 = 0\<rparr>"
      "fr = \<lparr>rows = rows cropped, cols = width (fullSize opt) - leftBuffer opt - cols cropped,
                     mtype = mtype (focused opt), buf = Suc (Suc (fresh s1)), row0 = 0, col0 = 0\<rparr>"
    unfolding placement_contained_Inr_iff[OF nw] by blast+
  have P4: "fresh s2 = Suc (Suc (fresh s1))" using PL(2) nw by simp
  have bufs: "buf fl \<le> fresh s2" "buf fc \<le> fresh s2" "buf fr \<le> fresh s2"
    using P P4 RC(6) by simp_all
  have "pixel s' full I J = pixel s2 fl I J"
    using I J P RC(1,2,10,12) hconcat3_result(1)[OF h] bufs
    by (intro hconcat3_pixels(1)[OF h]) simp_all
  also have "\<dots> = 0"
    using placement_padding[OF pl c] I J RC(1) by simp
  finally show ?thesis .
qed

text \<open>
  The decoder returns a frame for a record of the encoder exactly when the top
  strip, the focused panel and the top strip again are as high as the frame, the
  focused panel has rows, and the restored crop does not end exactly at the seam.
\<close>

lemma round_trip_returns_iff:
  assumes enc: "optimizeImage interp img angle vAngle s = (Inr opt, s1)"
    and w31: "cols img < 2 ^ 31"
  shows "(\<exists>full s2. extractImage interp opt s1 = (Inr full, s2)) \<longleftrightarrow>
         rows img = 2 * height (origVSize opt) + rows (focused opt) \<and>
         0 < rows (focused opt) \<and>
         cols img \<noteq> 2 * width (origHSize opt) + width (origVSize opt) + leftBuffer opt \<and>
         2 * width (origHSize opt) + width (origVSize opt) + leftBuffer opt < 2 ^ 31"
proof
  from enc obtain l r c fw t b where
    cc: "cropColumns img angle = Inr (l, r)" and
    g: "5 \<le> 2 * (fw div 2)" and
    sz: "mat_size (focused opt) =
       (if t < b then \<lparr>width = 2 * (fw div 2), height = b - t\<rparr> else \<lparr>width = 0, height = 0\<rparr>)"
      "origHSize opt = \<lparr>width = c div 2 - fw div 2, height = rows img\<rparr>"
      "origVSize opt = \<lparr>width = 2 * (fw div 2), height = t\<rparr>"
      "fullSize opt = mat_size img" "leftBuffer opt = l"
    by (rule optimizeImage_geometry)
  assume "\<exists>full s2. extractImage interp opt s1 = (Inr full, s2)"
  then obtain full s4 cropped s2 fl fc fr s3 where
    rc: "reconstruct interp opt s1 = (Inr cropped, s2)" and
    pl: "placement opt cropped s2 = (Inr (fl, fc, fr), s3)" and
    h: "hconcat3 fl fc fr Mat_empty s3 = (Inr full, s4)"
    unfolding extractImage_Inr_iff by blast
  note RC = reconstruct_Inr[OF rc]
  note H = hconcat3_result[OF h]
  have 1: "rows img = 2 * height (origVSize opt) + rows (focused opt)"
    using RC(3) sz(2) by simp
  have "0 < cols (focused opt)" using RC(4,12) by simp
  then have 2: "0 < rows (focused opt)"
    using sz(1) by (simp add: mat_size_def split: if_splits)
  have 4: "2 * width (origHSize opt) + width (origVSize opt) + leftBuffer opt < 2 ^ 31"
    using placement_Inr(3)[OF pl] RC(2) by simp
  have 3: "cols img \<noteq> 2 * width (origHSize opt) + width (origVSize opt) + leftBuffer opt"
  proof
    assume "cols img = 2 * width (origHSize opt) + width (origVSize opt) + leftBuffer opt"
    then have eq: "width (fullSize opt) = cols cropped + leftBuffer opt"
      using RC(2) sz(4) by (simp add: mat_size_def)
    then have T: "width (fullSize opt) \<le> cols cropped + leftBuffer opt" by simp
    from pl have "fl = (if 0 < rows cropped \<and> width (fullSize opt) - leftBuffer opt < cols cropped
           then cropped\<lparr>cols := cols cropped - (width (fullSize opt) - leftBuffer opt),
                          col0 := col0 cropped + (width (fullSize opt) - leftBuffer opt)\<rparr>
           else release cropped)"
      and "fc = \<lparr>rows = rows cropped, cols = width (fullSize opt) - cols fr - cols fl,
            mtype = mtype (focused opt), buf = Suc (fresh s2), row0 = 0, col0 = 0\<rparr>"
      unfolding placement_wrap_Inr_iff[OF T] by blast+
    then have "rows fl = 0" "rows fc = rows cropped" using eq by simp_all
    then show False using H(2) RC(1,9) by simp
  qed
  show "rows img = 2 * height (origVSize opt) + rows (focused opt) \<and>
         0 < rows (focused opt) \<and>
         cols img \<noteq> 2 * width (origHSize opt) + width (origVSize opt) + leftBuffer opt \<and>
         2 * width (origHSize opt) + width (origVSize opt) + leftBuffer opt < 2 ^ 31"
    using 1 2 3 4 by blast
next
  assume a: "rows img = 2 * height (origVSize opt) + rows (focused opt) \<and>
         0 < rows (focused opt) \<and>
         cols img \<noteq> 2 * width (origHSize opt) + width (origVSize opt) + leftBuffer opt \<and>
         2 * width (origHSize opt) + width (origVSize opt) + leftBuffer opt < 2 ^ 31"
  from enc obtain l r c fw t b where
    cc: "cropColumns img angle = Inr (l, r)" and
    c: "c = (if l < r then r - l else cols img - l + r)" and
    g: "0 \<le> c div 2 - fw div 2" "c div 2 + fw div 2 < c" "0 \<le> fw"
      "5 \<le> rows img" "5 \<le> c div 2 - fw div 2" "5 \<le> 2 * (fw div 2)"
      "5 \<le> t" "t \<le> b" "b < rows img" and
    sz: "mat_size (focused opt) =
       (if t < b then \<lparr>width = 2 * (fw div 2), height = b - t\<rparr> else \<lparr>width = 0, height = 0\<rparr>)"
      "mat_size (blurredLeft opt) = \<lparr>width = (c div 2 - fw div 2) div 5, height = rows img div 5\<rparr>"
      "mat_size (blurredRight opt) = \<lparr>width = (c div 2 - fw div 2) div 5, height = rows img div 5\<rparr>"
      "mat_size (blurredTop opt) = \<lparr>width = (2 * (fw div 2)) div 5, height = t div 5\<rparr>"
      "mat_size (blurredBottom opt) = \<lparr>width = (2 * (fw div 2)) div 5, height = t div 5\<rparr>"
      "origHSize opt = \<lparr>width = c div 2 - fw div 2, height = rows img\<rparr>"
      "origVSize opt = \<lparr>width = 2 * (fw div 2), height = t\<rparr>"
      "fullSize opt = mat_size img" "leftBuffer opt = l" and
    ty: "mtype (focused opt) = mtype img" "mtype (blurredLeft opt) = mtype img"
      "mtype (blurredRight opt) = mtype img" "mtype (blurredTop opt) = mtype img"
      "mtype (blurredBottom opt) = mtype img"
    by (rule optimizeImage_geometry)
  have lr: "0 \<le> l" "l < cols img" "0 \<le> r" "r < cols img"
    using cc by (simp_all add: cropColumns_eq)
  have cw: "c \<le> cols img" using lr by (auto simp: c)
  have d5: "\<And>x::int. 5 \<le> x \<Longrightarrow> 0 < x div 5"
    by (simp add: pos_imp_zdiv_pos_iff)
  have tb: "t < b" using a sz(1) by (simp add: mat_size_def split: if_splits)
  show "\<exists>full s2. extractImage interp opt s1 = (Inr full, s2)"
  proof (rule extractImage_succeeds)
    show "\<not> size_empty (mat_size (blurredLeft opt))" "\<not> size_empty (mat_size (blurredRight opt))"
        "\<not> size_empty (mat_size (blurredTop opt))" "\<not> size_empty (mat_size (blurredBottom opt))"
      unfolding sz size_empty_def using g d5 by (simp_all add: not_le)
    show "\<not> size_empty (origHSize opt)" "\<not> size_empty (origVSize opt)"
      unfolding sz size_empty_def using g by simp_all
    show "mtype (blurredLeft opt) = mtype (focused opt)"
        "mtype (blurredRight opt) = mtype (focused opt)"
        "mtype (blurredTop opt) = mtype (focused opt)"
        "mtype (blurredBottom opt) = mtype (focused opt)"
      using ty by simp_all
    show "cols (focused opt) = width (origVSize opt)"
      using sz(1,7) tb unfolding mat_size_eq_iff by (simp add: mat_size_def)
    show "height (origHSize opt) = 2 * height (origVSize opt) + rows (focused opt)"
      using a sz(6) by simp
    show "2 * width (origHSize opt) + width (origVSize opt) \<le> width (fullSize opt)"
      using sz(6,7,8) cw g by (simp add: mat_size_def)
    show "height (fullSize opt) = height (origHSize opt)"
      using sz(6,8) by (simp add: mat_size_def)
    show "0 \<le> leftBuffer opt" "leftBuffer opt < width (fullSize opt)"
      using sz(8,9) lr by (simp_all add: mat_size_def)
    show "width (fullSize opt) \<noteq>
        2 * width (origHSize opt) + width (origVSize opt) + leftBuffer opt"
      using a sz(8) by (simp add: mat_size_def)
    show "2 * width (origHSize opt) + width (origVSize opt) + leftBuffer opt < 2 ^ 31"
      using a by simp
    show "width (fullSize opt) < 2 ^ 31" using w31 sz(8) by (simp add: mat_size_def)
  qed
qed

text \<open>
  C2. The claim: for every valid encode/decode pair the pixels of the focused patch
  in the decoded frame are bit-identical to the region of the source frame at the
  place that \<open>leftBuffer\<close> and the offsets of the focus band determine, and only the
  four peripheral regions may differ. The first part holds: row \<open>i\<close> and column \<open>j\<close>
  of the focused panel are at row \<open>origVSize.height + i\<close> and column
  \<open>(leftBuffer + origHSize.width + j) mod width\<close> of the decoded frame, and the pixel
  there is the pixel of the source frame at the same place.
\<close>

theorem focused_patch_survives_round_trip:
  assumes enc: "optimizeImage interp img angle vAngle s = (Inr opt, s1)"
    and dec: "extractImage interp opt s1 = (Inr full, s2)"
    and alloc: "buf img \<le> fresh s"
    and i: "0 \<le> i" "i < rows (focused opt)" and j: "0 \<le> j" "j < cols (focused opt)"
  shows "pixel s2 full (height (origVSize opt) + i)
           ((leftBuffer opt + width (origHSize opt) + j) mod cols img) =
         pixel s img (height (origVSize opt) + i)
           ((leftBuffer opt + width (origHSize opt) + j) mod cols img) \<and>
         pixel s2 full (height (origVSize opt) + i)
           ((leftBuffer opt + width (origHSize opt) + j) mod cols img) =
         pixel s1 (focused opt) i j \<and>
         mat_size full = mat_size img"
proof -
  note F = optimizeImage_focus[OF enc alloc i j]
  from enc obtain l r where cc: "cropColumns img angle = Inr (l, r)"
    and fs: "fullSize opt = mat_size img" "leftBuffer opt = l"
    unfolding optimizeImage_Inr_iff by blast
  have lb: "0 \<le> leftBuffer opt" "leftBuffer opt < width (fullSize opt)"
    using cc fs by (simp_all add: cropColumns_eq mat_size_def)
  have W: "width (fullSize opt) = cols img" using fs by (simp add: mat_size_def)
  have "pixel s2 full (height (origVSize opt) + i)
           ((leftBuffer opt + width (origHSize opt) + j) mod cols img) =
         pixel s1 (focused opt) i j"
    using extractImage_focus[OF dec F(2) lb i j] unfolding W .
  moreover have "mat_size full = mat_size img"
    using dec fs unfolding extractImage_Inr_iff by auto
  ultimately show ?thesis using F(1) by simp
qed

theorem focused_patch_survives_round_trip_witness:
  "\<exists>s1 full s2.
     optimizeImage flat (frame 360 180) 180 90 store0 = (Inr encoded_90, s1) \<and>
     extractImage flat encoded_90 s1 = (Inr full, s2) \<and>
     buf (frame 360 180) \<le> fresh store0 \<and>
     (0::int) < rows (focused encoded_90) \<and> (0::int) < cols (focused encoded_90) \<and>
     pixel s2 full 80 170 = 80171 \<and>
     pixel store0 (frame 360 180) 80 170 = 80171 \<and>
     pixel s1 (focused encoded_90) 0 0 = 80171 \<and>
     mat_size full = mat_size (frame 360 180)"
proof -
  obtain s1 where enc: "optimizeImage flat (frame 360 180) 180 90 store0 = (Inr encoded_90, s1)"
    using encode_360_180_90 by blast
  obtain full s2 where dec: "extractImage flat encoded_90 s1 = (Inr full, s2)"
    using decode_90_succeeds by blast
  have a: "buf (frame 360 180) \<le> fresh store0" by simp
  have ij: "(0::int) \<le> 0" "0 < rows (focused encoded_90)" "0 < cols (focused encoded_90)"
    by (simp_all add: encoded_90_def)
  have p: "pixel store0 (frame 360 180) 80 170 = 80171"
    by (simp add: pixel_def store0_def)
  have "height (origVSize encoded_90) + 0 = 80"
      "(leftBuffer encoded_90 + width (origHSize encoded_90) + 0) mod cols (frame 360 180) = 170"
    by (simp_all add: encoded_90_def)
  with focused_patch_survives_round_trip[OF enc dec a ij(1,2) ij(1,3)] p
  show ?thesis using enc dec a ij by auto
qed

text \<open>
  The second part fails: the decoder fills the columns outside the crop window with
  black, so pixels that belong to none of the four peripheral regions differ too.
  In the frame decoded for azimuth 180 the window starts at column 120; the pixel
  at row 90 and column 0 is black, and the source has 90001 there.
\<close>

theorem padding_differs_from_source:
  "\<exists>s1 full s2.
     optimizeImage flat (frame 360 180) 180 90 store0 = (Inr encoded_90, s1) \<and>
     extractImage flat encoded_90 s1 = (Inr full, s2) \<and>
     (0::int) < leftBuffer encoded_90 \<and>
     pixel s2 full 90 0 = 0 \<and>
     pixel store0 (frame 360 180) 90 0 = 90001"
proof -
  obtain s1 where enc: "optimizeImage flat (frame 360 180) 180 90 store0 = (Inr encoded_90, s1)"
    using encode_360_180_90 by blast
  obtain full s2 where dec: "extractImage flat encoded_90 s1 = (Inr full, s2)"
    using decode_90_succeeds by blast
  have "pixel s2 full 90 0 = 0"
    by (rule extractImage_left_padding[OF dec]) (simp_all add: encoded_90_def)
  moreover have "pixel store0 (frame 360 180) 90 0 = 90001"
    by (simp add: pixel_def store0_def)
  ultimately show ?thesis using enc dec by (auto simp: encoded_90_def)
qed

subsection \<open>The round trip\<close>

text \<open>
  C1. The claim: for every valid image and all angles that the encoder accepts,
  decoding the encoded record yields a frame of the size of the source. The encoder
  records the size of the top strip only, and the decoder restores the bottom strip
  to that size. For elevation 60 on a frame of 180 rows the top strip has 50 rows
  and the bottom strip 110: the restored stack has \<open>50 + 20 + 50 = 120\<close> rows, the side
  strips have 180, and the horizontal concatenation throws. No frame is returned.
\<close>

theorem round_trip_throws_off_centre:
  "\<exists>s1. optimizeImage flat (frame 360 180) 180 60 store0 = (Inr encoded_60, s1) \<and>
     fst (extractImage flat encoded_60 s1) = Inl CvException \<and>
     height (origHSize encoded_60) = 180 \<and>
     2 * height (origVSize encoded_60) + rows (focused encoded_60) = 120"
  using encode_360_180_60 decode_60_fails
  by (auto simp: encoded_60_def)


end
